theory Spec2Isabelle
  imports Main
begin

section \<open>Graphs as the program holds them\<close>

text \<open>
  The program (\<^verbatim>\<open>algorithm_trees.py\<close>) works on a networkx \<^verbatim>\<open>Graph\<close> \<^verbatim>\<open>G\<close> and builds a
  networkx \<^verbatim>\<open>DiGraph\<close> \<^verbatim>\<open>T\<close>.  Node identifiers are Python integers (the default root
  of \<^verbatim>\<open>alg2\<close> and \<^verbatim>\<open>alg3\<close> is the integer \<^verbatim>\<open>0\<close>).

  A networkx graph keeps its nodes and, for every node, its neighbours in dictionaries,
  which iterate in insertion order.  Both endpoints of an edge receive their adjacency
  entry in the same call, so the adjacency orders are those of one list of edges in
  insertion order; that list is the field \<open>edges\<close>.
\<close>

type_synonym node = int

text \<open>
  The exceptions.  The first four are those that the program's calls can raise.  The
  last two are the error kinds that the specification names for the orientation; no
  function of the program raises them, and they are here so that this can be stated.
\<close>

datatype error =
  NetworkXError | KeyError | IndexError | NetworkXUnfeasible
  | DisconnectedGraph | MalformedOrientation

record graph =
  nodes :: "node list"
  edges :: "(node \<times> node) list"

text \<open>\<^verbatim>\<open>G._adj[n]\<close>: the neighbours of \<open>n\<close>, in insertion order.\<close>

definition adj :: "graph \<Rightarrow> node \<Rightarrow> node list" where
  "adj G n = concat (map (\<lambda>(a, b). if a = n then [b] else if b = n then [a] else []) (edges G))"

text \<open>
  \<^verbatim>\<open>list(G.edges(data=True))\<close>: networkx walks the nodes in order and reports \<open>(n, nbr)\<close> for
  every neighbour of \<open>n\<close> that is not a node already walked.
\<close>

fun edges_from :: "graph \<Rightarrow> node list \<Rightarrow> node list \<Rightarrow> (node \<times> node) list" where
  "edges_from G seen [] = []"
| "edges_from G seen (n # ns) =
     map (Pair n) (filter (\<lambda>nbr. nbr \<notin> set seen) (adj G n)) @ edges_from G (n # seen) ns"

definition G_edges :: "graph \<Rightarrow> (node \<times> node) list" where
  "G_edges G = edges_from G [] (nodes G)"

definition has_edge :: "graph \<Rightarrow> node \<Rightarrow> node \<Rightarrow> bool" where
  "has_edge G u v \<longleftrightarrow> (u, v) \<in> set (edges G) \<or> (v, u) \<in> set (edges G)"

text \<open>\<^verbatim>\<open>G.remove_edge(u, v)\<close> raises \<^verbatim>\<open>NetworkXError\<close> when the edge is absent.\<close>

definition remove_edge :: "graph \<Rightarrow> node \<Rightarrow> node \<Rightarrow> error + graph" where
  "remove_edge G u v =
     (if has_edge G u v
      then Inr (G\<lparr>edges := filter (\<lambda>e. e \<noteq> (u, v) \<and> e \<noteq> (v, u)) (edges G)\<rparr>)
      else Inl NetworkXError)"

definition add_node :: "node \<Rightarrow> node list \<Rightarrow> node list" where
  "add_node n ns = (if n \<in> set ns then ns else ns @ [n])"

text \<open>\<^verbatim>\<open>G.add_edge(u, v)\<close>: missing endpoints become nodes; a new edge goes last.\<close>

definition add_edge :: "graph \<Rightarrow> node \<Rightarrow> node \<Rightarrow> graph" where
  "add_edge G u v =
     \<lparr>nodes = add_node v (add_node u (nodes G)),
      edges = (if has_edge G u v then edges G else edges G @ [(u, v)])\<rparr>"

text \<open>
  \<^verbatim>\<open>nx.node_connected_component(G, n)\<close> is a breadth-first search from \<open>n\<close>
  (\<^verbatim>\<open>_plain_bfs\<close>); it returns the set of nodes reached, of which the program takes the
  \<^verbatim>\<open>len\<close>.  A source that is no node of \<open>G\<close> is a \<^verbatim>\<open>KeyError\<close>.
\<close>

definition endpoints :: "graph \<Rightarrow> node set" where
  "endpoints G = fst ` set (edges G) \<union> snd ` set (edges G)"

function plain_bfs :: "graph \<Rightarrow> node list \<Rightarrow> node list \<Rightarrow> node list" where
  "plain_bfs G seen [] = seen"
| "plain_bfs G seen (v # queue) =
     (let new = filter (\<lambda>w. w \<notin> set seen) (remdups (adj G v))
      in plain_bfs G (seen @ new) (queue @ new))"
  by pat_completeness auto

lemma adj_endpoints: "set (adj G v) \<subseteq> endpoints G"
  by (force simp: adj_def endpoints_def split: if_splits)

termination plain_bfs
proof (relation "measures [\<lambda>(G, seen, queue). card (endpoints G - set seen),
                           \<lambda>(G, seen, queue). length queue]")
  show "wf (measures [\<lambda>(G, seen, queue). card (endpoints G - set seen),
                      \<lambda>(G, seen, queue). length queue])"
    by simp
next
  fix G :: graph and seen v queue new
  assume new: "new = filter (\<lambda>w. w \<notin> set seen) (remdups (adj G v))"
  have fin: "finite (endpoints G)"
    by (simp add: endpoints_def)
  show "((G, seen @ new, queue @ new), (G, seen, v # queue))
        \<in> measures [\<lambda>(G, seen, queue). card (endpoints G - set seen),
                     \<lambda>(G, seen, queue). length queue]"
  proof (cases "new = []")
    case True
    then show ?thesis by simp
  next
    case False
    then obtain w where w: "w \<in> set new"
      by (cases new) auto
    with new have "w \<in> endpoints G" "w \<notin> set seen"
      using adj_endpoints [of G v] by auto
    with w have "endpoints G - set (seen @ new) \<subset> endpoints G - set seen"
      by auto
    then have "card (endpoints G - set (seen @ new)) < card (endpoints G - set seen)"
      using fin by (intro psubset_card_mono) auto
    then show ?thesis by simp
  qed
qed

definition node_connected_component :: "graph \<Rightarrow> node \<Rightarrow> error + node list" where
  "node_connected_component G n =
     (if n \<in> set (nodes G) then Inr (plain_bfs G [n] [n]) else Inl KeyError)"

section \<open>The directed graph \<open>T\<close>\<close>

text \<open>
  A networkx \<^verbatim>\<open>DiGraph\<close>: its nodes in insertion order, its arcs in insertion order (the
  successor and predecessor dictionaries of a node list its arcs in that order), and the
  \<^verbatim>\<open>"labels"\<close> attribute of the arcs, the only attribute the program ever sets.
\<close>

record digraph =
  dnodes :: "node list"
  arcs :: "(node \<times> node) list"
  attr_labels :: "node \<times> node \<Rightarrow> nat option"

definition DiGraph :: digraph where
  "DiGraph = \<lparr>dnodes = [], arcs = [], attr_labels = Map.empty\<rparr>"

definition add_nodes_from :: "digraph \<Rightarrow> node list \<Rightarrow> digraph" where
  "add_nodes_from T ns = T\<lparr>dnodes := fold add_node ns (dnodes T)\<rparr>"

definition add_arc :: "digraph \<Rightarrow> node \<Rightarrow> node \<Rightarrow> digraph" where
  "add_arc T u v =
     T\<lparr>dnodes := add_node v (add_node u (dnodes T)),
       arcs := (if (u, v) \<in> set (arcs T) then arcs T else arcs T @ [(u, v)])\<rparr>"

definition successors :: "digraph \<Rightarrow> node \<Rightarrow> node list" where
  "successors T n = map snd (filter (\<lambda>a. fst a = n) (arcs T))"

definition predecessors :: "digraph \<Rightarrow> node \<Rightarrow> node list" where
  "predecessors T n = map fst (filter (\<lambda>a. snd a = n) (arcs T))"

definition in_degree :: "digraph \<Rightarrow> node \<Rightarrow> nat" where
  "in_degree T n = length (predecessors T n)"

definition out_degree :: "digraph \<Rightarrow> node \<Rightarrow> nat" where
  "out_degree T n = length (successors T n)"

section \<open>A \<^verbatim>\<open>for\<close> statement that may raise\<close>

text \<open>
  A Python \<^verbatim>\<open>for\<close> loop whose body may raise: the state is threaded through the
  elements in order, and the first error ends the loop.
\<close>

fun for_each :: "('a \<Rightarrow> 's \<Rightarrow> error + 's) \<Rightarrow> 'a list \<Rightarrow> 's \<Rightarrow> error + 's" where
  "for_each f [] s = Inr s"
| "for_each f (x # xs) s = (case f x s of Inl err \<Rightarrow> Inl err | Inr s' \<Rightarrow> for_each f xs s')"

section \<open>\<^verbatim>\<open>LSO\<close>: orienting the edges\<close>

text \<open>
  One pass of the loop of \<^verbatim>\<open>LSO\<close>: the edge is taken out of \<open>G\<close>, the two components are
  measured, the arc is added to \<open>T\<close> and the edge is put back into \<open>G\<close>.  The state is
  the pair of the (mutated) input graph and the directed graph under construction.
\<close>

definition LSO_body :: "node \<times> node \<Rightarrow> graph \<times> digraph \<Rightarrow> error + graph \<times> digraph" where
  "LSO_body e s =
     (case e of (u, v) \<Rightarrow> case s of (G, T) \<Rightarrow>
        (case remove_edge G u v of Inl err \<Rightarrow> Inl err | Inr G1 \<Rightarrow>
         (case node_connected_component G1 u of Inl err \<Rightarrow> Inl err | Inr c1 \<Rightarrow>
          (case node_connected_component G1 v of Inl err \<Rightarrow> Inl err | Inr c2 \<Rightarrow>
             (let l1 = length c1; l2 = length c2;
                  T' = (if l2 > l1 then add_arc T v u else add_arc T u v)
              in Inr (add_edge G1 u v, T'))))))"

definition LSO_loop :: "(node \<times> node) list \<Rightarrow> graph \<times> digraph \<Rightarrow> error + graph \<times> digraph" where
  "LSO_loop es s = for_each LSO_body es s"

text \<open>
  \<^verbatim>\<open>LSO(G)\<close> returns \<open>T\<close>; the model returns the input graph as the call leaves it as
  well, since the caller's \<open>G\<close> is the object the loop mutates.  The drawing of \<open>T\<close> has
  no part in the result.
\<close>

definition LSO :: "graph \<Rightarrow> error + graph \<times> digraph" where
  "LSO G = LSO_loop (G_edges G) (G, add_nodes_from DiGraph (nodes G))"

section \<open>Depth-first traversals of \<open>T\<close>\<close>

text \<open>
  \<^verbatim>\<open>nx.dfs_labeled_edges\<close> walks the digraph with a stack and reports \<open>(parent, child)\<close>
  as \<^verbatim>\<open>"forward"\<close> when it first reaches \<open>child\<close> and as \<^verbatim>\<open>"reverse"\<close> when it leaves
  it; the source is reported with itself as parent.  \<^verbatim>\<open>dfs_preorder_nodes\<close> keeps the
  children of the forward reports, \<^verbatim>\<open>dfs_postorder_nodes\<close> those of the reverse ones,
  and \<^verbatim>\<open>dfs_tree\<close> is the digraph of the forward arcs.  The stack of the model holds the
  reports still to be made: the children of a node, in the order of its successors,
  followed by the node's own reverse report.
\<close>

datatype dfs_label = Forward node node | Reverse node node

definition arc_heads :: "digraph \<Rightarrow> node set" where
  "arc_heads T = snd ` set (arcs T)"

fun pending :: "dfs_label list \<Rightarrow> node set" where
  "pending [] = {}"
| "pending (Forward u v # st) = insert v (pending st)"
| "pending (Reverse u v # st) = pending st"

function dfs_labeled_edges :: "digraph \<Rightarrow> node list \<Rightarrow> dfs_label list \<Rightarrow> dfs_label list" where
  "dfs_labeled_edges T visited [] = []"
| "dfs_labeled_edges T visited (Forward u v # stack) =
     (if v \<in> set visited then dfs_labeled_edges T visited stack
      else Forward u v #
           dfs_labeled_edges T (v # visited) (map (Forward v) (successors T v) @ Reverse u v # stack))"
| "dfs_labeled_edges T visited (Reverse u v # stack) =
     Reverse u v # dfs_labeled_edges T visited stack"
  by pat_completeness auto

lemma finite_pending: "finite (pending st)"
  by (induction st rule: pending.induct) auto

lemma pending_append: "pending (xs @ ys) = pending xs \<union> pending ys"
  by (induction xs rule: pending.induct) auto

lemma pending_map_Forward: "pending (map (Forward v) ws) = set ws"
  by (induction ws) auto

lemma successors_heads: "set (successors T v) \<subseteq> arc_heads T"
  by (auto simp: successors_def arc_heads_def)

termination dfs_labeled_edges
proof (relation "measures [\<lambda>(T, visited, stack). card ((arc_heads T \<union> pending stack) - set visited),
                           \<lambda>(T, visited, stack). length stack]")
  show "wf (measures [\<lambda>(T, visited, stack). card ((arc_heads T \<union> pending stack) - set visited),
                      \<lambda>(T, visited, stack). length stack])"
    by simp
next
  fix T :: digraph and visited :: "node list" and u v :: node and stack :: "dfs_label list"
  assume "v \<in> set visited"
  have "finite (arc_heads T \<union> pending (Forward u v # stack))"
    by (simp add: finite_pending arc_heads_def)
  then have "card ((arc_heads T \<union> pending stack) - set visited)
      \<le> card ((arc_heads T \<union> pending (Forward u v # stack)) - set visited)"
    by (intro card_mono) auto
  then show "((T, visited, stack), (T, visited, Forward u v # stack))
        \<in> measures [\<lambda>(T, visited, stack). card ((arc_heads T \<union> pending stack) - set visited),
                     \<lambda>(T, visited, stack). length stack]"
    by auto
next
  fix T :: digraph and visited :: "node list" and u v :: node and stack :: "dfs_label list"
  assume v: "v \<notin> set visited"
  let ?st = "map (Forward v) (successors T v) @ Reverse u v # stack"
  have fin: "finite (arc_heads T \<union> pending (Forward u v # stack))"
    by (simp add: finite_pending arc_heads_def)
  have "(arc_heads T \<union> pending ?st) - set (v # visited)
      \<subset> (arc_heads T \<union> pending (Forward u v # stack)) - set visited"
    using v successors_heads [of T v] by (auto simp: pending_append pending_map_Forward)
  then have "card ((arc_heads T \<union> pending ?st) - set (v # visited))
      < card ((arc_heads T \<union> pending (Forward u v # stack)) - set visited)"
    using fin by (intro psubset_card_mono) auto
  then show "((T, v # visited, ?st), (T, visited, Forward u v # stack))
        \<in> measures [\<lambda>(T, visited, stack). card ((arc_heads T \<union> pending stack) - set visited),
                     \<lambda>(T, visited, stack). length stack]"
    by simp
next
  fix T :: digraph and visited :: "node list" and u v :: node and stack :: "dfs_label list"
  show "((T, visited, stack), (T, visited, Reverse u v # stack))
        \<in> measures [\<lambda>(T, visited, stack). card ((arc_heads T \<union> pending stack) - set visited),
                     \<lambda>(T, visited, stack). length stack]"
    by simp
qed

fun forward_arcs :: "dfs_label list \<Rightarrow> (node \<times> node) list" where
  "forward_arcs [] = []"
| "forward_arcs (Forward u v # ls) = (u, v) # forward_arcs ls"
| "forward_arcs (Reverse u v # ls) = forward_arcs ls"

fun reverse_arcs :: "dfs_label list \<Rightarrow> (node \<times> node) list" where
  "reverse_arcs [] = []"
| "reverse_arcs (Forward u v # ls) = reverse_arcs ls"
| "reverse_arcs (Reverse u v # ls) = (u, v) # reverse_arcs ls"

text \<open>
  The traversals from a source.  The program calls \<^verbatim>\<open>dfs_preorder_nodes\<close> and
  \<^verbatim>\<open>dfs_tree\<close> only on nodes that a traversal of \<open>T\<close> has produced; its one call of
  \<^verbatim>\<open>dfs_postorder_nodes\<close> is on \<^verbatim>\<open>root\<close>, which need not be a node of \<open>T\<close>, and
  networkx then raises (\<^verbatim>\<open>NetworkXError\<close>, from \<^verbatim>\<open>T.successors\<close>).
\<close>

definition dfs_preorder_nodes :: "digraph \<Rightarrow> node \<Rightarrow> node list" where
  "dfs_preorder_nodes T source = map snd (forward_arcs (dfs_labeled_edges T [] [Forward source source]))"

definition dfs_postorder_nodes :: "digraph \<Rightarrow> node \<Rightarrow> error + node list" where
  "dfs_postorder_nodes T source =
     (if source \<in> set (dnodes T)
      then Inr (map snd (reverse_arcs (dfs_labeled_edges T [] [Forward source source])))
      else Inl NetworkXError)"

text \<open>
  \<^verbatim>\<open>nx.dfs_tree(T, source)\<close>: a new digraph with the source as first node and the forward
  arcs between distinct nodes, added in the order of the traversal, so that its nodes are
  in preorder.  It carries no attributes.
\<close>

definition dfs_tree :: "digraph \<Rightarrow> node \<Rightarrow> digraph" where
  "dfs_tree T source =
     fold (\<lambda>(u, v) D. add_arc D u v)
       (filter (\<lambda>(u, v). u \<noteq> v) (forward_arcs (dfs_labeled_edges T [] [Forward source source])))
       (add_nodes_from DiGraph [source])"

section \<open>Scenario 2\<close>

text \<open>
  The root: the last node, in node order, whose in-degree is 0, and the integer 0 when
  there is none.
\<close>

definition find_root :: "digraph \<Rightarrow> node" where
  "find_root T = fold (\<lambda>n root. if in_degree T n = 0 then n else root) (dnodes T) 0"

text \<open>
  The body of the loop of \<^verbatim>\<open>alg2\<close> over \<^verbatim>\<open>T_list\<close>; the state is \<open>T\<close> (whose arcs receive
  labels) with the lists \<^verbatim>\<open>labels\<close> and \<^verbatim>\<open>tiles\<close>.  \<^verbatim>\<open>list(T.predecessors(x))[0]\<close> is an
  \<^verbatim>\<open>IndexError\<close> on a node without predecessor.
\<close>

definition alg2_body ::
  "node \<Rightarrow> node \<Rightarrow> digraph \<times> nat list \<times> nat list list \<Rightarrow> error + digraph \<times> nat list \<times> nat list list" where
  "alg2_body root x s =
     (case s of (T, labels, tiles) \<Rightarrow>
        (case (if x \<noteq> root
               then (let k = length (dnodes (dfs_tree T x))
                     in case predecessors T x of
                          [] \<Rightarrow> Inl IndexError
                        | p # ps \<Rightarrow>
                            Inr (T\<lparr>attr_labels := (attr_labels T)((p, x) \<mapsto> k)\<rparr>,
                                 if k \<notin> set labels then labels @ [k] else labels))
               else Inr (T, labels))
         of Inl err \<Rightarrow> Inl err
          | Inr (T1, labels1) \<Rightarrow>
              Inr (T1, labels1,
                   if successors T1 x = []
                   then (if [] \<notin> set tiles then tiles @ [[]] else tiles)
                   else (let tile = sort (map (\<lambda>i. length (dnodes (dfs_tree T1 i)))
                                            (dfs_preorder_nodes T1 x))
                         in if tile \<notin> set tiles then tiles @ [tile] else tiles))))"

text \<open>
  \<^verbatim>\<open>alg2\<close> up to its \<^verbatim>\<open>return\<close>: the labelled \<open>T\<close>, \<^verbatim>\<open>labels\<close> and \<^verbatim>\<open>tiles\<close>; then \<^verbatim>\<open>alg2\<close>
  itself, which returns the two lengths.
\<close>

definition alg2_run :: "graph \<Rightarrow> error + digraph \<times> nat list \<times> nat list list" where
  "alg2_run G =
     (case LSO G of Inl err \<Rightarrow> Inl err | Inr (G', T) \<Rightarrow>
        (let root = find_root T
         in case dfs_postorder_nodes T root of Inl err \<Rightarrow> Inl err | Inr T_list \<Rightarrow>
              for_each (alg2_body root) T_list (T, [], [])))"

definition alg2 :: "graph \<Rightarrow> error + nat \<times> nat" where
  "alg2 G =
     (case alg2_run G of Inl err \<Rightarrow> Inl err
      | Inr (T, labels, tiles) \<Rightarrow> Inr (length labels, length tiles))"

section \<open>Scenario 3\<close>

text \<open>
  \<^verbatim>\<open>nx.dag_longest_path_length(T)\<close>: the number of arcs of a longest directed path (no
  arc of \<open>T\<close> carries a \<^verbatim>\<open>"weight"\<close>), and \<^verbatim>\<open>NetworkXUnfeasible\<close> when \<open>T\<close> has a directed
  cycle.  networkx sorts \<open>T\<close> topologically; the model takes the topological generations
  off one after the other (the nodes all of whose predecessors are gone), and the longest
  path has one arc less than there are generations.  On the empty digraph the length
  is 0.
\<close>

function generations :: "digraph \<Rightarrow> node list \<Rightarrow> nat \<Rightarrow> error + nat" where
  "generations T remaining n =
     (if remaining = [] then Inr n
      else (let sources = filter (\<lambda>x. \<forall>p \<in> set (predecessors T x). p \<notin> set remaining) remaining
            in if sources = [] then Inl NetworkXUnfeasible
               else generations T (filter (\<lambda>x. x \<notin> set sources) remaining) (Suc n)))"
  by pat_completeness auto

termination generations
proof (relation "measure (\<lambda>(T, remaining, n). length remaining)")
  show "wf (measure (\<lambda>(T, remaining, n). length remaining))"
    by simp
next
  fix T :: digraph and remaining :: "node list" and n :: nat and sources :: "node list"
  assume src: "sources = filter (\<lambda>x. \<forall>p \<in> set (predecessors T x). p \<notin> set remaining) remaining"
    and ne: "sources \<noteq> []"
  from ne obtain x where x: "x \<in> set sources"
    by (cases sources) auto
  with src have "x \<in> set remaining"
    by simp
  with x have "length (filter (\<lambda>x. x \<notin> set sources) remaining) < length remaining"
    by (intro length_filter_less [of x]) auto
  then show "((T, filter (\<lambda>x. x \<notin> set sources) remaining, Suc n), (T, remaining, n))
        \<in> measure (\<lambda>(T, remaining, n). length remaining)"
    by simp
qed

declare generations.simps [simp del]

definition dag_longest_path_length :: "digraph \<Rightarrow> error + nat" where
  "dag_longest_path_length T =
     (case generations T (dnodes T) 0 of Inl err \<Rightarrow> Inl err | Inr n \<Rightarrow> Inr (n - 1))"

text \<open>
  \<^verbatim>\<open>nx.descendants_at_distance(T, source, distance)\<close>: the breadth-first layer of the
  source at that distance, as a set; \<^verbatim>\<open>NetworkXError\<close> when the source is no node of \<open>T\<close>.
\<close>

fun bfs_layer :: "digraph \<Rightarrow> node list \<Rightarrow> node list \<Rightarrow> nat \<Rightarrow> node list" where
  "bfs_layer T visited current 0 = current"
| "bfs_layer T visited current (Suc d) =
     (let next_layer = remdups (filter (\<lambda>w. w \<notin> set visited) (concat (map (successors T) current)))
      in bfs_layer T (visited @ next_layer) next_layer d)"

definition descendants_at_distance :: "digraph \<Rightarrow> node \<Rightarrow> nat \<Rightarrow> error + node list" where
  "descendants_at_distance T source distance =
     (if source \<in> set (dnodes T) then Inr (bfs_layer T [source] [source] distance)
      else Inl NetworkXError)"

text \<open>
  \<^verbatim>\<open>nx.is_isomorphic(A, B)\<close> on two digraphs, attributes ignored: some one-to-one
  renaming of the nodes of \<open>A\<close> by the nodes of \<open>B\<close> carries the arcs of \<open>A\<close> onto the arcs
  of \<open>B\<close>.  The model tries every arrangement of the nodes of \<open>B\<close>.
\<close>

fun interleave :: "'a \<Rightarrow> 'a list \<Rightarrow> 'a list list" where
  "interleave x [] = [[x]]"
| "interleave x (y # ys) = (x # y # ys) # map ((#) y) (interleave x ys)"

fun arrangements :: "'a list \<Rightarrow> 'a list list" where
  "arrangements [] = [[]]"
| "arrangements (x # xs) = concat (map (interleave x) (arrangements xs))"

definition rename :: "node list \<Rightarrow> node list \<Rightarrow> node \<Rightarrow> node" where
  "rename ns ms n = (case map_of (zip ns ms) n of Some m \<Rightarrow> m | None \<Rightarrow> n)"

definition is_isomorphic :: "digraph \<Rightarrow> digraph \<Rightarrow> bool" where
  "is_isomorphic A B \<longleftrightarrow>
     length (dnodes A) = length (dnodes B) \<and>
     list_ex (\<lambda>ms. set (map (map_prod (rename (dnodes A) ms) (rename (dnodes A) ms)) (arcs A))
                    = set (arcs B))
             (arrangements (dnodes B))"

text \<open>
  The leaves: every node without successor and with exactly one predecessor has the arc
  from that predecessor labelled 1.
\<close>

definition label_leaves :: "digraph \<Rightarrow> digraph" where
  "label_leaves T =
     fold (\<lambda>x T. if out_degree T x = 0 \<and> in_degree T x = 1
                  then T\<lparr>attr_labels := (attr_labels T)((hd (predecessors T x), x) \<mapsto> 1)\<rparr>
                  else T)
          (dnodes T) T"

text \<open>
  The body of the inner loop of \<^verbatim>\<open>alg3\<close>, on a node \<open>l\<close> of the level; the state is \<open>T\<close>,
  the counter \<open>j\<close> and the list \<^verbatim>\<open>subgraphs\<close>.  In the second branch Python's \<^verbatim>\<open>and\<close> looks at
  the arc of \<open>l\<close> only when no subgraph seen so far is isomorphic.
\<close>

definition label_if_unlabelled :: "node \<Rightarrow> digraph \<times> nat \<Rightarrow> error + digraph \<times> nat" where
  "label_if_unlabelled l s =
     (case s of (T, j) \<Rightarrow>
        (case predecessors T l of
           [] \<Rightarrow> Inl IndexError
         | p # ps \<Rightarrow>
             (if attr_labels T (p, l) = None
              then Inr (T\<lparr>attr_labels := (attr_labels T)((p, l) \<mapsto> j + 1)\<rparr>, j + 1)
              else Inr (T, j))))"

definition alg3_body ::
  "node \<Rightarrow> digraph \<times> nat \<times> digraph list \<Rightarrow> error + digraph \<times> nat \<times> digraph list" where
  "alg3_body l s =
     (case s of (T, j, subgraphs) \<Rightarrow>
        (if subgraphs = []
         then (case label_if_unlabelled l (T, j) of Inl err \<Rightarrow> Inl err
               | Inr (T1, j1) \<Rightarrow> Inr (T1, j1, subgraphs @ [dfs_tree T1 l]))
         else (if \<not> list_ex (\<lambda>sub. is_isomorphic (dfs_tree T l) sub) subgraphs
               then (case label_if_unlabelled l (T, j) of Inl err \<Rightarrow> Inl err
                     | Inr (T1, j1) \<Rightarrow> Inr (T1, j1, subgraphs @ [dfs_tree T1 l]))
               else Inr (T, j, subgraphs @ [dfs_tree T l]))))"

text \<open>
  One level of the outer loop.  \<^verbatim>\<open>descendants_at_distance\<close> returns a Python set, and the
  order in which \<^verbatim>\<open>list\<close> enumerates a set is that of its hash table; the enumeration is
  the parameter \<open>set_list\<close>.
\<close>

definition alg3_level ::
  "(node list \<Rightarrow> node list) \<Rightarrow> node \<Rightarrow> nat \<Rightarrow> digraph \<times> nat \<times> digraph list
     \<Rightarrow> error + digraph \<times> nat \<times> digraph list" where
  "alg3_level set_list root i s =
     (case s of (T, j, subgraphs) \<Rightarrow>
        (case descendants_at_distance T root i of Inl err \<Rightarrow> Inl err
         | Inr layer \<Rightarrow> for_each alg3_body (set_list layer) (T, j, subgraphs)))"

text \<open>\<^verbatim>\<open>range(h-1, 0, -1)\<close>: the levels \<open>h - 1\<close>, \<open>h - 2\<close>, \dots, 1.\<close>

definition levels :: "nat \<Rightarrow> nat list" where
  "levels h = rev [1..<h]"

definition alg3_run ::
  "(node list \<Rightarrow> node list) \<Rightarrow> graph \<Rightarrow> error + digraph \<times> nat \<times> digraph list" where
  "alg3_run set_list G =
     (case LSO G of Inl err \<Rightarrow> Inl err | Inr (G', T) \<Rightarrow>
        (case dag_longest_path_length T of Inl err \<Rightarrow> Inl err | Inr h \<Rightarrow>
           (let root = find_root T
            in for_each (alg3_level set_list root) (levels h) (label_leaves T, 1, []))))"

definition alg3 :: "(node list \<Rightarrow> node list) \<Rightarrow> graph \<Rightarrow> error + nat \<times> nat" where
  "alg3 set_list G =
     (case alg3_run set_list G of Inl err \<Rightarrow> Inl err
      | Inr (T, j, subgraphs) \<Rightarrow> Inr (j, j + 1))"

section \<open>The notions of the claims\<close>

text \<open>
  The edges of \<open>G\<close> as a symmetric relation on the nodes, and the connected component of
  a node under a relation: the nodes that a walk from it reaches.
\<close>

definition edge_rel :: "graph \<Rightarrow> (node \<times> node) set" where
  "edge_rel G = set (edges G) \<union> (set (edges G))\<inverse>"

definition component :: "(node \<times> node) set \<Rightarrow> node \<Rightarrow> node set" where
  "component R n = R\<^sup>* `` {n}"

text \<open>
  A networkx graph as its interface builds it: the nodes are distinct, the endpoints of
  the edges are nodes, and no edge is stored twice, in either direction.
\<close>

definition well_formed :: "graph \<Rightarrow> bool" where
  "well_formed G \<longleftrightarrow>
     distinct (nodes G) \<and> endpoints G \<subseteq> set (nodes G) \<and> distinct (edges G) \<and>
     (\<forall>(u, v) \<in> set (edges G). u \<noteq> v \<longrightarrow> (v, u) \<notin> set (edges G))"

text \<open>
  The edges without one edge; the arc that the rule of \<^verbatim>\<open>LSO\<close> gives the edge \<open>(u, v)\<close>,
  from the sizes of the components of \<open>u\<close> and \<open>v\<close> once the edge is left out.
\<close>

definition without :: "(node \<times> node) set \<Rightarrow> node \<times> node \<Rightarrow> (node \<times> node) set" where
  "without R e = R - {e, (snd e, fst e)}"

definition orient :: "(node \<times> node) set \<Rightarrow> node \<times> node \<Rightarrow> node \<times> node" where
  "orient R e =
     (let l1 = card (component (without R e) (fst e));
          l2 = card (component (without R e) (snd e))
      in if l2 > l1 then (snd e, fst e) else e)"

text \<open>\<^verbatim>\<open>T.add_edge\<close> on an arc given as a pair.\<close>

definition add_arc_pair :: "node \<times> node \<Rightarrow> digraph \<Rightarrow> digraph" where
  "add_arc_pair a T = add_arc T (fst a) (snd a)"

text \<open>
  The directed graph that the rule of \<^verbatim>\<open>LSO\<close> describes: the nodes of \<open>G\<close>, and for every
  edge, in the order of the enumeration, the arc given by the sizes of the two components.
\<close>

definition oriented :: "graph \<Rightarrow> digraph" where
  "oriented G =
     \<lparr>dnodes = nodes G, arcs = map (orient (edge_rel G)) (G_edges G), attr_labels = Map.empty\<rparr>"

text \<open>
  Connectedness as \<^verbatim>\<open>nx.is_connected\<close> decides it: the search from the first node reaches
  every node (networkx refuses the graph without nodes; it is not connected here).
\<close>

definition is_connected :: "graph \<Rightarrow> bool" where
  "is_connected G \<longleftrightarrow>
     (case nodes G of [] \<Rightarrow> False | n # ns \<Rightarrow> set (nodes G) \<subseteq> set (plain_bfs G [n] [n]))"

text \<open>The graph that the program builds and runs on (the last lines of the file).\<close>

definition G_example :: graph where
  "G_example =
     \<lparr>nodes = [1, 2, 3, 4, 5, 6, 7, 8, 9],
      edges = [(1, 3), (2, 3), (3, 4), (4, 5), (5, 6), (6, 7), (7, 8), (6, 9)]\<rparr>"

text \<open>
  A tree as \<^verbatim>\<open>nx.is_tree\<close> decides it: connected, with one edge less than there are
  nodes.
\<close>

definition is_tree :: "graph \<Rightarrow> bool" where
  "is_tree G \<longleftrightarrow> is_connected G \<and> length (edges G) + 1 = length (nodes G)"

text \<open>
  Every edge is a bridge: its endpoints are not connected once the edge is left out (the
  graph has no cycle and no loop).
\<close>

definition all_bridges :: "graph \<Rightarrow> bool" where
  "all_bridges G \<longleftrightarrow> (\<forall>(u, v) \<in> edge_rel G. (u, v) \<notin> (without (edge_rel G) (u, v))\<^sup>*)"

text \<open>The nodes that a depth-first traversal reports forward, and those it reports in reverse.\<close>

definition forward_nodes :: "dfs_label list \<Rightarrow> node list" where
  "forward_nodes ls = map snd (forward_arcs ls)"

definition reverse_nodes :: "dfs_label list \<Rightarrow> node list" where
  "reverse_nodes ls = map snd (reverse_arcs ls)"

text \<open>The nodes whose reverse report is still on the stack, and the parents on the stack.\<close>

fun pending_reverse :: "dfs_label list \<Rightarrow> node list" where
  "pending_reverse [] = []"
| "pending_reverse (Forward u v # st) = pending_reverse st"
| "pending_reverse (Reverse u v # st) = v # pending_reverse st"

fun pending_parents :: "dfs_label list \<Rightarrow> node set" where
  "pending_parents [] = {}"
| "pending_parents (Forward u v # st) = insert u (pending_parents st)"
| "pending_parents (Reverse u v # st) = pending_parents st"

text \<open>
  The size of the subtree of a node, itself included: the number of nodes that the arcs
  lead to from it.  The tile signature of a node: empty for a node without successor,
  and otherwise the sizes of the subtrees of the nodes of the preorder traversal from it,
  in ascending order.
\<close>

definition subtree_size :: "digraph \<Rightarrow> node \<Rightarrow> nat" where
  "subtree_size T x = card ((set (arcs T))\<^sup>* `` {x})"

definition signature :: "digraph \<Rightarrow> node \<Rightarrow> nat list" where
  "signature T x =
     (if successors T x = [] then []
      else sort (map (subtree_size T) (dfs_preorder_nodes T x)))"

text \<open>Python's \<^verbatim>\<open>if k not in xs: xs.append(k)\<close>.\<close>

definition append_new :: "'a \<Rightarrow> 'a list \<Rightarrow> 'a list" where
  "append_new k xs = (if k \<notin> set xs then xs @ [k] else xs)"

text \<open>
  A rooted tree: the nodes are distinct, one node (the root) has in-degree 0, every other
  node has in-degree 1, and the traversal from the root visits exactly the nodes.
\<close>

definition rooted_tree :: "digraph \<Rightarrow> bool" where
  "rooted_tree T \<longleftrightarrow>
     distinct (dnodes T) \<and>
     (\<exists>r \<in> set (dnodes T). in_degree T r = 0 \<and>
        (\<forall>x \<in> set (dnodes T). x \<noteq> r \<longrightarrow> in_degree T x = 1) \<and>
        set (dfs_preorder_nodes T r) = set (dnodes T))"

text \<open>
  A path graph: a tree in which no node has more than two neighbours.
\<close>

definition is_path_graph :: "graph \<Rightarrow> bool" where
  "is_path_graph G \<longleftrightarrow> is_tree G \<and> (\<forall>n \<in> set (nodes G). length (adj G n) \<le> 2)"

section \<open>Which errors a run can end in\<close>

lemma for_each_Inl:
  "for_each f xs s = Inl err \<Longrightarrow> \<exists>x s'. x \<in> set xs \<and> f x s' = Inl err"
proof (induction xs arbitrary: s)
  case Nil
  then show ?case by simp
next
  case (Cons a xs)
  show ?case
  proof (cases "f a s")
    case (Inl e)
    with Cons.prems show ?thesis by auto
  next
    case (Inr s1)
    with Cons.prems have "for_each f xs s1 = Inl err" by simp
    from Cons.IH [OF this] show ?thesis by auto
  qed
qed

lemma LSO_body_Inl: "LSO_body e s = Inl err \<Longrightarrow> err = NetworkXError \<or> err = KeyError"
  by (auto simp: LSO_body_def remove_edge_def node_connected_component_def Let_def
      split: prod.splits sum.splits if_splits)

lemma LSO_Inl: "LSO G = Inl err \<Longrightarrow> err = NetworkXError \<or> err = KeyError"
  unfolding LSO_def LSO_loop_def by (blast dest: for_each_Inl LSO_body_Inl)

lemma alg2_body_Inl: "alg2_body root x s = Inl err \<Longrightarrow> err = IndexError"
  by (auto simp: alg2_body_def Let_def split: prod.splits sum.splits if_splits list.splits)

lemma alg2_run_Inl:
  "alg2_run G = Inl err \<Longrightarrow> err = NetworkXError \<or> err = KeyError \<or> err = IndexError"
  unfolding alg2_run_def Let_def dfs_postorder_nodes_def
  by (auto split: sum.splits prod.splits if_splits dest: LSO_Inl for_each_Inl alg2_body_Inl)

lemma alg2_Inl:
  "alg2 G = Inl err \<Longrightarrow> err = NetworkXError \<or> err = KeyError \<or> err = IndexError"
  unfolding alg2_def by (auto split: sum.splits prod.splits dest: alg2_run_Inl)

lemma label_if_unlabelled_Inl: "label_if_unlabelled l s = Inl err \<Longrightarrow> err = IndexError"
  by (auto simp: label_if_unlabelled_def split: prod.splits list.splits if_splits)

lemma alg3_body_Inl: "alg3_body l s = Inl err \<Longrightarrow> err = IndexError"
  by (auto simp: alg3_body_def split: prod.splits sum.splits if_splits
      dest: label_if_unlabelled_Inl)

lemma alg3_level_Inl:
  "alg3_level set_list root i s = Inl err \<Longrightarrow> err = IndexError \<or> err = NetworkXError"
  by (auto simp: alg3_level_def descendants_at_distance_def split: prod.splits sum.splits if_splits
      dest: for_each_Inl alg3_body_Inl)

lemma generations_Inl: "generations T remaining n = Inl err \<Longrightarrow> err = NetworkXUnfeasible"
proof (induction T remaining n rule: generations.induct)
  case (1 T remaining n)
  then show ?case
    by (subst (asm) (2) generations.simps) (auto simp: Let_def split: if_splits)
qed

lemma alg3_run_Inl:
  "alg3_run set_list G = Inl err \<Longrightarrow>
     err = NetworkXError \<or> err = KeyError \<or> err = IndexError \<or> err = NetworkXUnfeasible"
  unfolding alg3_run_def Let_def dag_longest_path_length_def
  by (auto split: sum.splits prod.splits dest: LSO_Inl generations_Inl)
     (blast dest: for_each_Inl alg3_level_Inl)

lemma alg3_Inl:
  "alg3 set_list G = Inl err \<Longrightarrow>
     err = NetworkXError \<or> err = KeyError \<or> err = IndexError \<or> err = NetworkXUnfeasible"
  unfolding alg3_def by (auto split: sum.splits prod.splits dest: alg3_run_Inl)

section \<open>Scenario 3: the returned pair\<close>

text \<open>
  Claim C5.  On every input on which \<^verbatim>\<open>alg3\<close> completes, whatever the order in which the
  levels are enumerated, the pair returned is \<open>(j, j + 1)\<close> for the final counter \<open>j\<close>:
  the second component is the first plus exactly 1.
\<close>

theorem alg3_returns_j_and_j_plus_1:
  "alg3 set_list G = Inr (b, t) \<Longrightarrow>
     t = b + 1 \<and> (\<exists>T subgraphs. alg3_run set_list G = Inr (T, b, subgraphs))"
  unfolding alg3_def by (auto split: sum.splits prod.splits)

text \<open>
  The theorem of claim C5 at the path on three nodes, where \<^verbatim>\<open>alg3\<close> completes with the
  pair \<open>(1, 2)\<close>.
\<close>

theorem alg3_returns_j_and_j_plus_1_witness:
  "alg3 id \<lparr>nodes = [1, 2, 3], edges = [(1, 2), (2, 3)]\<rparr> = Inr (1, 2) \<and> (2::nat) = 1 + 1"
proof -
  have run: "alg3 id \<lparr>nodes = [1, 2, 3], edges = [(1, 2), (2, 3)]\<rparr> = Inr (1, 2)"
    by code_simp
  from alg3_returns_j_and_j_plus_1 [OF run] run show ?thesis
    by simp
qed

section \<open>The breadth-first search computes the component\<close>

lemma set_adj: "set (adj G v) = edge_rel G `` {v}"
  by (force simp: adj_def edge_rel_def split: if_splits)

lemma plain_bfs_distinct: "distinct seen \<Longrightarrow> distinct (plain_bfs G seen queue)"
  by (induction G seen queue rule: plain_bfs.induct) (auto simp: Let_def)

lemma plain_bfs_mono: "set seen \<subseteq> set (plain_bfs G seen queue)"
  by (induction G seen queue rule: plain_bfs.induct) (auto simp: Let_def)

lemma plain_bfs_sound:
  "set seen \<subseteq> C \<Longrightarrow> set queue \<subseteq> C \<Longrightarrow> edge_rel G `` C \<subseteq> C
    \<Longrightarrow> set (plain_bfs G seen queue) \<subseteq> C"
proof (induction G seen queue rule: plain_bfs.induct)
  case (1 G seen)
  then show ?case by simp
next
  case (2 G seen v queue)
  define new where "new = filter (\<lambda>w. w \<notin> set seen) (remdups (adj G v))"
  have "set new \<subseteq> edge_rel G `` {v}"
    by (auto simp: new_def set_adj)
  with "2.prems" have "set new \<subseteq> C"
    by auto
  with "2.prems" have "set (plain_bfs G (seen @ new) (queue @ new)) \<subseteq> C"
    by (intro "2.IH" [OF new_def]) auto
  then show ?case
    by (simp add: new_def Let_def)
qed

lemma plain_bfs_closed:
  "set queue \<subseteq> set seen \<Longrightarrow> \<forall>x \<in> set seen - set queue. edge_rel G `` {x} \<subseteq> set seen
    \<Longrightarrow> edge_rel G `` set (plain_bfs G seen queue) \<subseteq> set (plain_bfs G seen queue)"
proof (induction G seen queue rule: plain_bfs.induct)
  case (1 G seen)
  then show ?case by auto
next
  case (2 G seen v queue)
  define new where "new = filter (\<lambda>w. w \<notin> set seen) (remdups (adj G v))"
  have v: "edge_rel G `` {v} \<subseteq> set (seen @ new)"
    by (auto simp: new_def set_adj [symmetric])
  have "edge_rel G `` set (plain_bfs G (seen @ new) (queue @ new))
      \<subseteq> set (plain_bfs G (seen @ new) (queue @ new))"
  proof (rule "2.IH" [OF new_def])
    show "set (queue @ new) \<subseteq> set (seen @ new)"
      using "2.prems"(1) by auto
    show "\<forall>x \<in> set (seen @ new) - set (queue @ new). edge_rel G `` {x} \<subseteq> set (seen @ new)"
    proof
      fix x assume x: "x \<in> set (seen @ new) - set (queue @ new)"
      show "edge_rel G `` {x} \<subseteq> set (seen @ new)"
      proof (cases "x = v")
        case True
        with v show ?thesis by simp
      next
        case False
        with x have "x \<in> set seen - set (v # queue)" by auto
        with "2.prems"(2) have "edge_rel G `` {x} \<subseteq> set seen" by blast
        then show ?thesis by auto
      qed
    qed
  qed
  then show ?case
    by (simp add: new_def Let_def)
qed

lemma plain_bfs_component: "set (plain_bfs G [n] [n]) = component (edge_rel G) n"
proof
  show "set (plain_bfs G [n] [n]) \<subseteq> component (edge_rel G) n"
    unfolding component_def
    by (rule plain_bfs_sound) (auto intro: rtrancl_into_rtrancl)
next
  have closed: "edge_rel G `` set (plain_bfs G [n] [n]) \<subseteq> set (plain_bfs G [n] [n])"
    by (rule plain_bfs_closed) auto
  have n: "n \<in> set (plain_bfs G [n] [n])"
    using plain_bfs_mono [of "[n]" G "[n]"] by simp
  have "(n, x) \<in> (edge_rel G)\<^sup>* \<Longrightarrow> x \<in> set (plain_bfs G [n] [n])" for x
    by (induction rule: rtrancl_induct) (use n closed in auto)
  then show "component (edge_rel G) n \<subseteq> set (plain_bfs G [n] [n])"
    by (auto simp: component_def)
qed

lemma length_plain_bfs: "length (plain_bfs G [n] [n]) = card (component (edge_rel G) n)"
  using plain_bfs_component [of G n] plain_bfs_distinct [of "[n]" G "[n]"]
  by (metis distinct_card distinct_singleton)

section \<open>The loop of \<^verbatim>\<open>LSO\<close> and the enumeration of the edges\<close>

lemma edge_rel_sym: "(a, b) \<in> edge_rel G \<Longrightarrow> (b, a) \<in> edge_rel G"
  by (auto simp: edge_rel_def)

lemma has_edge_iff: "has_edge G u v \<longleftrightarrow> (u, v) \<in> edge_rel G"
  by (auto simp: has_edge_def edge_rel_def)

lemma edge_rel_endpoints: "(a, b) \<in> edge_rel G \<Longrightarrow> a \<in> endpoints G \<and> b \<in> endpoints G"
  by (force simp: edge_rel_def endpoints_def)

lemma edge_rel_endpoints_eq: "endpoints G = fst ` edge_rel G"
  by (force simp: edge_rel_def endpoints_def)

lemma remove_edge_Inr:
  assumes "(u, v) \<in> edge_rel G"
  shows "\<exists>G1. remove_edge G u v = Inr G1 \<and> nodes G1 = nodes G
              \<and> edge_rel G1 = without (edge_rel G) (u, v)"
  using assms by (auto simp: remove_edge_def has_edge_iff edge_rel_def without_def)

lemma add_node_mem: "n \<in> set ns \<Longrightarrow> add_node n ns = ns"
  by (simp add: add_node_def)

lemma add_edge_rel: "edge_rel (add_edge G u v) = edge_rel G \<union> {(u, v), (v, u)}"
  by (auto simp: add_edge_def has_edge_def edge_rel_def)

lemma add_edge_nodes: "u \<in> set (nodes G) \<Longrightarrow> v \<in> set (nodes G) \<Longrightarrow> nodes (add_edge G u v) = nodes G"
  by (simp add: add_edge_def add_node_mem)

lemma LSO_body_Inr:
  assumes e: "(u, v) \<in> edge_rel G" and u: "u \<in> set (nodes G)" and v: "v \<in> set (nodes G)"
  shows "\<exists>G2. LSO_body (u, v) (G, T) = Inr (G2, add_arc_pair (orient (edge_rel G) (u, v)) T)
              \<and> nodes G2 = nodes G \<and> edge_rel G2 = edge_rel G"
proof -
  from remove_edge_Inr [OF e] obtain G1 where G1: "remove_edge G u v = Inr G1"
    "nodes G1 = nodes G" "edge_rel G1 = without (edge_rel G) (u, v)"
    by blast
  have c1: "node_connected_component G1 u = Inr (plain_bfs G1 [u] [u])"
    and c2: "node_connected_component G1 v = Inr (plain_bfs G1 [v] [v])"
    using u v G1(2) by (simp_all add: node_connected_component_def)
  have nodes: "nodes (add_edge G1 u v) = nodes G"
    using u v G1(2) by (simp add: add_edge_nodes)
  have rel: "edge_rel (add_edge G1 u v) = edge_rel G"
    using e edge_rel_sym [OF e] by (auto simp: add_edge_rel G1(3) without_def)
  have "LSO_body (u, v) (G, T) = Inr (add_edge G1 u v, add_arc_pair (orient (edge_rel G) (u, v)) T)"
    by (simp add: LSO_body_def G1(1) c1 c2 length_plain_bfs G1(3) orient_def Let_def add_arc_pair_def
        del: plain_bfs.simps)
  with nodes rel show ?thesis by blast
qed

lemma LSO_loop_Inr:
  assumes "set es \<subseteq> edge_rel G" and "endpoints G \<subseteq> set (nodes G)"
  shows "\<exists>G'. for_each LSO_body es (G, T) = Inr (G', fold (\<lambda>e. add_arc_pair (orient (edge_rel G) e)) es T)
              \<and> nodes G' = nodes G \<and> edge_rel G' = edge_rel G"
  using assms
proof (induction es arbitrary: G T)
  case Nil
  then show ?case by simp
next
  case (Cons e es)
  obtain u v where uv: "e = (u, v)" by (cases e)
  with Cons.prems have e: "(u, v) \<in> edge_rel G" by simp
  with Cons.prems(2) have "u \<in> set (nodes G)" "v \<in> set (nodes G)"
    using edge_rel_endpoints by blast+
  from LSO_body_Inr [OF e this, of T] obtain G2 where G2:
    "LSO_body (u, v) (G, T) = Inr (G2, add_arc_pair (orient (edge_rel G) (u, v)) T)"
    "nodes G2 = nodes G" "edge_rel G2 = edge_rel G"
    by blast
  have ep: "endpoints G2 = endpoints G"
    using G2(3) edge_rel_endpoints_eq by simp
  from Cons.IH [of G2 "add_arc_pair (orient (edge_rel G) (u, v)) T"] Cons.prems G2 ep
  show ?case
    by (auto simp: uv)
qed

lemma fold_add_node: "distinct ns \<Longrightarrow> set ns \<inter> set acc = {} \<Longrightarrow> fold add_node ns acc = acc @ ns"
  by (induction ns arbitrary: acc) (auto simp: add_node_def)

lemma dnodes_add_nodes_from: "distinct ns \<Longrightarrow> dnodes (add_nodes_from DiGraph ns) = ns"
  by (simp add: add_nodes_from_def DiGraph_def fold_add_node)

lemma arcs_add_nodes_from [simp]: "arcs (add_nodes_from T ns) = arcs T"
  by (simp add: add_nodes_from_def)

lemma fold_add_arc_arcs:
  "distinct (arcs T @ as) \<Longrightarrow> arcs (fold add_arc_pair as T) = arcs T @ as"
  by (induction as arbitrary: T) (auto simp: add_arc_pair_def add_arc_def)

lemma fold_add_arc_dnodes:
  "fst ` set as \<union> snd ` set as \<subseteq> set (dnodes T) \<Longrightarrow> dnodes (fold add_arc_pair as T) = dnodes T"
  by (induction as arbitrary: T) (auto simp: add_arc_pair_def add_arc_def add_node_mem)

lemma fold_add_arc_labels: "attr_labels (fold add_arc_pair as T) = attr_labels T"
  by (induction as arbitrary: T) (auto simp: add_arc_pair_def add_arc_def)

lemma orient_cases: "orient R e = e \<or> orient R e = (snd e, fst e)"
  by (simp add: orient_def Let_def)

lemma edges_from_subset: "set (edges_from G seen ns) \<subseteq> edge_rel G"
  by (induction ns arbitrary: seen) (auto simp: set_adj)

lemma edges_from_fst:
  "(u, v) \<in> set (edges_from G seen ns) \<Longrightarrow> u \<in> set ns \<and> v \<notin> set seen"
  by (induction ns arbitrary: seen) fastforce+

lemma edges_from_cover:
  "(a, b) \<in> edge_rel G \<Longrightarrow> a \<in> set ns \<Longrightarrow> b \<in> set ns \<Longrightarrow> a \<notin> set seen \<Longrightarrow> b \<notin> set seen
    \<Longrightarrow> (a, b) \<in> set (edges_from G seen ns) \<or> (b, a) \<in> set (edges_from G seen ns)"
proof (induction ns arbitrary: seen)
  case Nil
  then show ?case by simp
next
  case (Cons n ns)
  show ?case
  proof (cases "a = n \<or> b = n")
    case True
    with Cons.prems edge_rel_sym [OF Cons.prems(1)] show ?thesis
      by (auto simp: set_adj)
  next
    case False
    with Cons.prems have "(a, b) \<in> set (edges_from G (n # seen) ns) \<or> (b, a) \<in> set (edges_from G (n # seen) ns)"
      by (intro Cons.IH) auto
    then show ?thesis by auto
  qed
qed

lemma edges_from_asym:
  "distinct ns \<Longrightarrow> (u, v) \<in> set (edges_from G seen ns) \<Longrightarrow> u \<noteq> v
    \<Longrightarrow> (v, u) \<notin> set (edges_from G seen ns)"
proof (induction ns arbitrary: seen)
  case Nil
  then show ?case by simp
next
  case (Cons n ns)
  from Cons.prems(2) consider
      (head) "u = n" "v \<in> set (adj G n)" "v \<notin> set seen"
    | (tail) "(u, v) \<in> set (edges_from G (n # seen) ns)"
    by auto
  then show ?case
  proof cases
    case head
    have "(v, n) \<notin> set (edges_from G (n # seen) ns)"
      using edges_from_fst [of v n G "n # seen" ns] by auto
    with head Cons.prems(3) show ?thesis by auto
  next
    case tail
    from edges_from_fst [OF tail] Cons.prems(1) have "u \<noteq> n" "v \<noteq> n" by auto
    moreover have "(v, u) \<notin> set (edges_from G (n # seen) ns)"
      using Cons.IH [OF _ tail Cons.prems(3)] Cons.prems(1) by simp
    ultimately show ?thesis by auto
  qed
qed

lemma distinct_adj_list:
  "distinct es \<Longrightarrow> \<forall>(u, v) \<in> set es. u \<noteq> v \<longrightarrow> (v, u) \<notin> set es
    \<Longrightarrow> distinct (concat (map (\<lambda>(a, b). if a = n then [b] else if b = n then [a] else []) es))
       \<and> set (concat (map (\<lambda>(a, b). if a = n then [b] else if b = n then [a] else []) es))
           \<subseteq> {b. (n, b) \<in> set es \<or> (b, n) \<in> set es}"
proof (induction es)
  case Nil
  then show ?case by simp
next
  case (Cons e es)
  obtain a b where e: "e = (a, b)" by (cases e)
  from Cons.prems have IH: "distinct (concat (map (\<lambda>(a, b). if a = n then [b] else if b = n then [a] else []) es))"
    "set (concat (map (\<lambda>(a, b). if a = n then [b] else if b = n then [a] else []) es))
           \<subseteq> {b. (n, b) \<in> set es \<or> (b, n) \<in> set es}"
    using Cons.IH by auto
  from Cons.prems have new: "(a, b) \<notin> set es" "a \<noteq> b \<Longrightarrow> (b, a) \<notin> set es"
    by (auto simp: e)
  show ?case
    using IH new by (auto simp: e)
qed

lemma distinct_adj: "well_formed G \<Longrightarrow> distinct (adj G n)"
  using distinct_adj_list [of "edges G" n] by (simp add: well_formed_def adj_def)

lemma edges_from_distinct:
  "(\<And>n. distinct (adj G n)) \<Longrightarrow> distinct ns \<Longrightarrow> distinct (edges_from G seen ns)"
proof (induction ns arbitrary: seen)
  case Nil
  then show ?case by simp
next
  case (Cons n ns)
  have "distinct (map (Pair n) (filter (\<lambda>nbr. nbr \<notin> set seen) (adj G n)))"
    using Cons.prems(1) by (simp add: distinct_map inj_on_def)
  moreover have "distinct (edges_from G (n # seen) ns)"
    using Cons by simp
  moreover have "(n, x) \<notin> set (edges_from G (n # seen) ns)" for x
    using edges_from_fst [of n x G "n # seen" ns] Cons.prems(2) by auto
  ultimately show ?case by auto
qed

lemma G_edges_subset: "set (G_edges G) \<subseteq> edge_rel G"
  by (simp add: G_edges_def edges_from_subset)

lemma G_edges_distinct: "well_formed G \<Longrightarrow> distinct (G_edges G)"
  by (simp add: G_edges_def edges_from_distinct distinct_adj well_formed_def)

lemma G_edges_asym:
  "well_formed G \<Longrightarrow> (u, v) \<in> set (G_edges G) \<Longrightarrow> u \<noteq> v \<Longrightarrow> (v, u) \<notin> set (G_edges G)"
  unfolding G_edges_def by (rule edges_from_asym) (simp_all add: well_formed_def)

lemma G_edges_cover:
  assumes "well_formed G" "(a, b) \<in> edge_rel G"
  shows "(a, b) \<in> set (G_edges G) \<or> (b, a) \<in> set (G_edges G)"
proof -
  from assms edge_rel_endpoints [OF assms(2)] have "a \<in> set (nodes G)" "b \<in> set (nodes G)"
    by (auto simp: well_formed_def)
  then show ?thesis
    unfolding G_edges_def using assms(2) by (intro edges_from_cover) auto
qed

lemma orient_inj:
  assumes "well_formed G"
  shows "inj_on (orient R) (set (G_edges G))"
proof (rule inj_onI)
  fix x y assume x: "x \<in> set (G_edges G)" and y: "y \<in> set (G_edges G)"
    and eq: "orient R x = orient R y"
  show "x = y"
  proof (rule ccontr)
    assume ne: "x \<noteq> y"
    with eq orient_cases [of R x] orient_cases [of R y]
    have "y = (snd x, fst x)"
      by (cases x; cases y) auto
    with ne x y G_edges_asym [OF assms, of "fst x" "snd x"] show False
      by (cases x) auto
  qed
qed

lemma distinct_map_orient: "well_formed G \<Longrightarrow> distinct (map (orient R) (G_edges G))"
  by (simp add: distinct_map G_edges_distinct orient_inj)

lemma G_edges_endpoints:
  assumes "well_formed G"
  shows "fst ` set (map (orient R) (G_edges G)) \<union> snd ` set (map (orient R) (G_edges G)) \<subseteq> set (nodes G)"
proof -
  have "fst e \<in> set (nodes G) \<and> snd e \<in> set (nodes G)" if "e \<in> set (G_edges G)" for e
    using that G_edges_subset [of G] edge_rel_endpoints [of "fst e" "snd e" G] assms
    by (auto simp: well_formed_def)
  then show ?thesis
    using orient_cases [of R] by (auto; metis fst_conv snd_conv)
qed

lemma fold_add_arc_map:
  "fold (\<lambda>e. add_arc_pair (f e)) es T = fold add_arc_pair (map f es) T"
  by (induction es arbitrary: T) auto

lemma LSO_prefix:
  assumes wf: "well_formed G" and es: "set es \<subseteq> set (G_edges G)"
  shows "\<exists>G'. LSO_loop es (G, add_nodes_from DiGraph (nodes G))
                 = Inr (G', fold (\<lambda>e. add_arc_pair (orient (edge_rel G) e)) es
                              (add_nodes_from DiGraph (nodes G)))
              \<and> nodes G' = nodes G \<and> edge_rel G' = edge_rel G"
  unfolding LSO_loop_def
  using wf es G_edges_subset [of G] by (intro LSO_loop_Inr) (auto simp: well_formed_def)

lemma LSO_oriented:
  assumes wf: "well_formed G"
  shows "\<exists>G'. LSO G = Inr (G', oriented G) \<and> nodes G' = nodes G \<and> edge_rel G' = edge_rel G"
proof -
  let ?S = "add_nodes_from DiGraph (nodes G)"
  let ?as = "map (orient (edge_rel G)) (G_edges G)"
  let ?T = "fold (\<lambda>e. add_arc_pair (orient (edge_rel G) e)) (G_edges G) ?S"
  have T: "?T = fold add_arc_pair ?as ?S"
    by (rule fold_add_arc_map)
  have d0: "dnodes ?S = nodes G"
    using wf by (simp add: dnodes_add_nodes_from well_formed_def)
  have "dnodes ?T = nodes G"
    unfolding T using G_edges_endpoints [OF wf] d0 by (subst fold_add_arc_dnodes) auto
  moreover have "arcs ?T = ?as"
    unfolding T using distinct_map_orient [OF wf] by (subst fold_add_arc_arcs) (auto simp: DiGraph_def)
  moreover have "attr_labels ?T = Map.empty"
    unfolding T by (simp add: fold_add_arc_labels add_nodes_from_def DiGraph_def)
  ultimately have "?T = oriented G"
    by (simp add: oriented_def)
  with LSO_prefix [OF wf subset_refl] show ?thesis
    by (simp add: LSO_def)
qed

lemma component_is_connected:
  "is_connected G \<longleftrightarrow> nodes G \<noteq> [] \<and> set (nodes G) \<subseteq> component (edge_rel G) (hd (nodes G))"
  by (cases "nodes G") (simp_all add: is_connected_def plain_bfs_component del: plain_bfs.simps)


section \<open>The orientation rule\<close>

text \<open>
  Claim C1.  On a well-formed graph \<^verbatim>\<open>LSO\<close> returns, and the arcs of the digraph it
  returns are, in the order in which the edges are enumerated, one arc for every edge
  \<open>(u, v)\<close>: with \<open>l1\<close> and \<open>l2\<close> the sizes of the connected components of \<open>u\<close> and of
  \<open>v\<close> in the input graph without exactly that edge, the arc is \<open>(v, u)\<close> if \<open>l2 > l1\<close>
  and \<open>(u, v)\<close> otherwise; in particular the arc of an edge with \<open>l1 = l2\<close> is the edge
  as enumerated.
\<close>

theorem LSO_orients_every_edge:
  assumes "well_formed G"
  shows "\<exists>G' T. LSO G = Inr (G', T) \<and>
           arcs T = map (\<lambda>(u, v). if card (component (without (edge_rel G) (u, v)) v)
                                       > card (component (without (edge_rel G) (u, v)) u)
                                    then (v, u) else (u, v)) (G_edges G) \<and>
           (\<forall>i < length (G_edges G).
              card (component (without (edge_rel G) (G_edges G ! i)) (fst (G_edges G ! i)))
                = card (component (without (edge_rel G) (G_edges G ! i)) (snd (G_edges G ! i)))
              \<longrightarrow> arcs T ! i = G_edges G ! i)"
proof -
  from LSO_oriented [OF assms] obtain G' where run: "LSO G = Inr (G', oriented G)"
    by blast
  have rule: "orient (edge_rel G) = (\<lambda>(u, v). if card (component (without (edge_rel G) (u, v)) v)
                                       > card (component (without (edge_rel G) (u, v)) u)
                                    then (v, u) else (u, v))"
    by (rule ext) (simp add: orient_def Let_def split: prod.splits)
  have "arcs (oriented G) = map (orient (edge_rel G)) (G_edges G)"
    by (simp add: oriented_def)
  moreover have "arcs (oriented G) ! i = G_edges G ! i"
    if "i < length (G_edges G)"
      "card (component (without (edge_rel G) (G_edges G ! i)) (fst (G_edges G ! i)))
         = card (component (without (edge_rel G) (G_edges G ! i)) (snd (G_edges G ! i)))" for i
    using that by (simp add: oriented_def orient_def)
  ultimately show ?thesis
    using run unfolding rule by blast
qed

text \<open>The theorem of claim C1 at the graph of the program, which is well formed.\<close>

theorem LSO_orients_every_edge_witness:
  "well_formed G_example \<and>
   (\<exists>G' T. LSO G_example = Inr (G', T) \<and>
      arcs T = map (\<lambda>(u, v). if card (component (without (edge_rel G_example) (u, v)) v)
                                  > card (component (without (edge_rel G_example) (u, v)) u)
                               then (v, u) else (u, v)) (G_edges G_example))"
proof -
  have wf: "well_formed G_example"
    by code_simp
  from LSO_orients_every_edge [OF wf] wf show ?thesis
    by blast
qed

section \<open>The input graph after \<^verbatim>\<open>LSO\<close>\<close>

text \<open>
  Claim C8.  The removal of an edge is transient.  On a well-formed graph, after any
  number \<open>k\<close> of passes of the loop the graph has the nodes and the edges of the input
  (so each edge is evaluated on the input's edge set); the next edge can then be removed,
  which leaves the input's edges without exactly that edge; and when \<^verbatim>\<open>LSO\<close> returns, the
  node list and the edge set of the graph are those at the call.  (The order in which the
  graph lists its edges may have changed: an edge put back is listed last.)
\<close>

theorem LSO_leaves_the_graph:
  assumes "well_formed G"
  shows "(\<forall>k \<le> length (G_edges G).
            \<exists>Gk Tk. LSO_loop (take k (G_edges G)) (G, add_nodes_from DiGraph (nodes G)) = Inr (Gk, Tk)
              \<and> nodes Gk = nodes G \<and> edge_rel Gk = edge_rel G
              \<and> (k < length (G_edges G) \<longrightarrow>
                   (\<exists>G1. remove_edge Gk (fst (G_edges G ! k)) (snd (G_edges G ! k)) = Inr G1
                      \<and> edge_rel G1 = without (edge_rel G) (G_edges G ! k))))
       \<and> (\<exists>G' T. LSO G = Inr (G', T) \<and> nodes G' = nodes G \<and> edge_rel G' = edge_rel G)"
proof (intro conjI allI impI)
  fix k assume "k \<le> length (G_edges G)"
  from LSO_prefix [OF assms set_take_subset, of k] obtain Gk Tk where
    run: "LSO_loop (take k (G_edges G)) (G, add_nodes_from DiGraph (nodes G)) = Inr (Gk, Tk)"
    and same: "nodes Gk = nodes G" "edge_rel Gk = edge_rel G"
    by blast
  have "\<exists>G1. remove_edge Gk (fst (G_edges G ! k)) (snd (G_edges G ! k)) = Inr G1
          \<and> edge_rel G1 = without (edge_rel G) (G_edges G ! k)"
    if "k < length (G_edges G)"
  proof -
    from that have "G_edges G ! k \<in> edge_rel Gk"
      using G_edges_subset [of G] same(2) nth_mem by blast
    then have "(fst (G_edges G ! k), snd (G_edges G ! k)) \<in> edge_rel Gk"
      by simp
    from remove_edge_Inr [OF this] same(2) show ?thesis
      by auto
  qed
  with run same
  show "\<exists>Gk Tk. LSO_loop (take k (G_edges G)) (G, add_nodes_from DiGraph (nodes G)) = Inr (Gk, Tk)
              \<and> nodes Gk = nodes G \<and> edge_rel Gk = edge_rel G
              \<and> (k < length (G_edges G) \<longrightarrow>
                   (\<exists>G1. remove_edge Gk (fst (G_edges G ! k)) (snd (G_edges G ! k)) = Inr G1
                      \<and> edge_rel G1 = without (edge_rel G) (G_edges G ! k)))"
    by blast
next
  from LSO_oriented [OF assms]
  show "\<exists>G' T. LSO G = Inr (G', T) \<and> nodes G' = nodes G \<and> edge_rel G' = edge_rel G"
    by blast
qed

text \<open>The theorem of claim C8 at the graph of the program.\<close>

theorem LSO_leaves_the_graph_witness:
  "well_formed G_example \<and>
   (\<exists>G' T. LSO G_example = Inr (G', T) \<and> nodes G' = nodes G_example
      \<and> edge_rel G' = edge_rel G_example)"
proof -
  have wf: "well_formed G_example"
    by code_simp
  from LSO_leaves_the_graph [OF wf] wf show ?thesis
    by blast
qed

section \<open>Disconnected graphs\<close>

text \<open>
  Claim C6 says that \<^verbatim>\<open>LSO\<close> rejects every disconnected graph with a
  \<^verbatim>\<open>DisconnectedGraph\<close> error.  It does not: the graph of two separate edges is not
  connected, and \<^verbatim>\<open>LSO\<close> returns the digraph of the two arcs.
\<close>

theorem LSO_disconnected_counterexample:
  "\<not> is_connected \<lparr>nodes = [1, 2, 3, 4], edges = [(1, 2), (3, 4)]\<rparr> \<and>
   \<not> isl (LSO \<lparr>nodes = [1, 2, 3, 4], edges = [(1, 2), (3, 4)]\<rparr>) \<and>
   arcs (snd (projr (LSO \<lparr>nodes = [1, 2, 3, 4], edges = [(1, 2), (3, 4)]\<rparr>))) = [(1, 2), (3, 4)]"
  by code_simp

text \<open>
  Claim C6 as amended.  \<^verbatim>\<open>LSO\<close> has no test of connectedness and never ends in a
  \<^verbatim>\<open>DisconnectedGraph\<close> error; on every well-formed graph, connected or not, it returns a
  digraph on the nodes of the graph with one arc for every edge.
\<close>

theorem LSO_never_rejects:
  "LSO G \<noteq> Inl DisconnectedGraph \<and>
   (well_formed G \<longrightarrow>
      (\<exists>G' T. LSO G = Inr (G', T) \<and> dnodes T = nodes G
         \<and> length (arcs T) = length (G_edges G)))"
proof (intro conjI impI)
  show "LSO G \<noteq> Inl DisconnectedGraph"
    using LSO_Inl [of G DisconnectedGraph] by auto
next
  assume "well_formed G"
  from LSO_oriented [OF this] obtain G' where "LSO G = Inr (G', oriented G)"
    by blast
  then show "\<exists>G' T. LSO G = Inr (G', T) \<and> dnodes T = nodes G
         \<and> length (arcs T) = length (G_edges G)"
    by (auto simp: oriented_def)
qed

text \<open>
  The theorem of the amended claim C6 at a graph that is well formed and not connected: a
  single edge and a third node apart.
\<close>

theorem LSO_never_rejects_witness:
  "well_formed \<lparr>nodes = [1, 2, 3], edges = [(1, 2)]\<rparr> \<and>
   \<not> is_connected \<lparr>nodes = [1, 2, 3], edges = [(1, 2)]\<rparr> \<and>
   (\<exists>G' T. LSO \<lparr>nodes = [1, 2, 3], edges = [(1, 2)]\<rparr> = Inr (G', T) \<and> dnodes T = [1, 2, 3]
      \<and> length (arcs T) = length (G_edges \<lparr>nodes = [1, 2, 3], edges = [(1, 2)]\<rparr>))"
proof -
  have wf: "well_formed \<lparr>nodes = [1, 2, 3], edges = [(1, 2)]\<rparr>"
    by code_simp
  have nc: "\<not> is_connected \<lparr>nodes = [1, 2, 3], edges = [(1, 2)]\<rparr>"
    by code_simp
  from LSO_never_rejects [of "\<lparr>nodes = [1, 2, 3], edges = [(1, 2)]\<rparr>"] wf nc show ?thesis
    by simp
qed

section \<open>The root\<close>

lemma fold_last_such:
  "fold (\<lambda>n root. if P n then n else root) ns r
     = (if filter P ns = [] then r else last (filter P ns))"
  by (induction ns arbitrary: r) auto

text \<open>
  Claim C7 says that an orientation with no node of in-degree 0, or with several, ends
  in a \<^verbatim>\<open>MalformedOrientation\<close> error.  It does not: on the cycle through 1, 3, 2, 4 the
  nodes 1 and 2 both have in-degree 0, and both \<^verbatim>\<open>alg2\<close> and \<^verbatim>\<open>alg3\<close> return counts.
\<close>

theorem two_roots_counterexample:
  "map (in_degree (snd (projr (LSO \<lparr>nodes = [1, 2, 3, 4], edges = [(1, 3), (1, 4), (2, 3), (2, 4)]\<rparr>))))
       (dnodes (snd (projr (LSO \<lparr>nodes = [1, 2, 3, 4], edges = [(1, 3), (1, 4), (2, 3), (2, 4)]\<rparr>))))
     = [0, 0, 2, 2] \<and>
   alg2 \<lparr>nodes = [1, 2, 3, 4], edges = [(1, 3), (1, 4), (2, 3), (2, 4)]\<rparr> = Inr (1, 2) \<and>
   alg3 id \<lparr>nodes = [1, 2, 3, 4], edges = [(1, 3), (1, 4), (2, 3), (2, 4)]\<rparr> = Inr (1, 2)"
  by code_simp

text \<open>
  Claim C7 as amended.  Neither \<^verbatim>\<open>alg2\<close> nor \<^verbatim>\<open>alg3\<close> ever ends in a
  \<^verbatim>\<open>MalformedOrientation\<close> error.  The root they go on with is the last node, in node
  order, among the nodes of in-degree 0, and the integer 0 when there is no such node.
\<close>

theorem root_is_last_of_in_degree_0:
  "find_root T = (if filter (\<lambda>n. in_degree T n = 0) (dnodes T) = [] then 0
                  else last (filter (\<lambda>n. in_degree T n = 0) (dnodes T))) \<and>
   alg2 G \<noteq> Inl MalformedOrientation \<and> alg3 set_list G \<noteq> Inl MalformedOrientation"
  using alg2_Inl [of G MalformedOrientation] alg3_Inl [of set_list G MalformedOrientation]
  by (auto simp: find_root_def fold_last_such)

section \<open>Graphs on which the claims fail\<close>

text \<open>
  Claim C9 says that on every path graph \<^verbatim>\<open>alg2\<close> returns the tile count 1.  On the path
  with three nodes it returns 2: the empty tile of the two leaves and the tile of the
  root.
\<close>

theorem path_tiles_counterexample:
  "alg2 \<lparr>nodes = [1, 2, 3], edges = [(1, 2), (2, 3)]\<rparr> = Inr (1, 2) \<and>
   snd (projr (alg2 \<lparr>nodes = [1, 2, 3], edges = [(1, 2), (2, 3)]\<rparr>)) \<noteq> 1"
  by code_simp

text \<open>
  Claim C2 says that on every connected simple graph the result of \<^verbatim>\<open>LSO\<close> has one node
  of in-degree 0 and in-degree 1 everywhere else.  On the triangle, which is connected and
  simple, the three edges tie and keep their enumerated direction, and node 3 has
  in-degree 2.
\<close>

theorem triangle_counterexample:
  "well_formed \<lparr>nodes = [1, 2, 3], edges = [(1, 2), (2, 3), (1, 3)]\<rparr> \<and>
   is_connected \<lparr>nodes = [1, 2, 3], edges = [(1, 2), (2, 3), (1, 3)]\<rparr> \<and>
   map (in_degree (snd (projr (LSO \<lparr>nodes = [1, 2, 3], edges = [(1, 2), (2, 3), (1, 3)]\<rparr>))))
       (dnodes (snd (projr (LSO \<lparr>nodes = [1, 2, 3], edges = [(1, 2), (2, 3), (1, 3)]\<rparr>))))
     = [0, 1, 2]"
  by code_simp

section \<open>Counting what a walk can reach\<close>

lemma Image_rtrancl_closed:
  assumes "S \<subseteq> C" and "R `` C \<subseteq> C"
  shows "R\<^sup>* `` S \<subseteq> C"
proof
  fix y assume "y \<in> R\<^sup>* `` S"
  then obtain x where x: "x \<in> S" and xy: "(x, y) \<in> R\<^sup>*"
    by auto
  from xy show "y \<in> C"
    by (induction rule: rtrancl_induct) (use x assms in auto)
qed

lemma rtrancl_Image_closed: "R `` (R\<^sup>* `` S) \<subseteq> R\<^sup>* `` S"
  by (auto intro: rtrancl_into_rtrancl)

lemma finite_reach:
  assumes "finite S"
  shows "finite ((set es \<union> (set es)\<inverse>)\<^sup>* `` S)"
proof -
  have "(set es \<union> (set es)\<inverse>)\<^sup>* `` S \<subseteq> S \<union> Range (set es \<union> (set es)\<inverse>)"
    by (rule Image_rtrancl_closed) auto
  moreover have "finite (S \<union> Range (set es \<union> (set es)\<inverse>))"
    using assms by (simp add: finite_Range)
  ultimately show ?thesis
    by (rule finite_subset)
qed

lemma card_reach:
  "finite S \<Longrightarrow> card ((set es \<union> (set es)\<inverse>)\<^sup>* `` S) \<le> length es + card S"
proof (induction es arbitrary: S)
  case Nil
  then show ?case by simp
next
  case (Cons e es)
  obtain a b where e: "e = (a, b)" by (cases e)
  let ?R = "set es \<union> (set es)\<inverse>"
  let ?R' = "set (e # es) \<union> (set (e # es))\<inverse>"
  have R': "?R' = ?R \<union> {(a, b), (b, a)}"
    by (auto simp: e)
  let ?C = "?R\<^sup>* `` S"
  consider (same) "a \<in> ?C \<longleftrightarrow> b \<in> ?C" | (a) "a \<in> ?C" "b \<notin> ?C" | (b) "b \<in> ?C" "a \<notin> ?C"
    by blast
  then show ?case
  proof cases
    case same
    have "?R'\<^sup>* `` S \<subseteq> ?C"
    proof (rule Image_rtrancl_closed)
      show "S \<subseteq> ?C" by auto
      show "?R' `` ?C \<subseteq> ?C"
        unfolding R' using same rtrancl_Image_closed [of ?R S] by blast
    qed
    then have "card (?R'\<^sup>* `` S) \<le> card ?C"
      using finite_reach [OF Cons.prems] by (intro card_mono)
    also have "\<dots> \<le> length es + card S"
      by (rule Cons.IH [OF Cons.prems])
    finally show ?thesis by simp
  next
    case a
    let ?D = "?R\<^sup>* `` insert b S"
    have sub: "?C \<subseteq> ?D" by auto
    have "?R'\<^sup>* `` S \<subseteq> ?D"
    proof (rule Image_rtrancl_closed)
      show "S \<subseteq> ?D" by auto
      show "?R' `` ?D \<subseteq> ?D"
        unfolding R' using a sub rtrancl_Image_closed [of ?R "insert b S"] by blast
    qed
    then have "card (?R'\<^sup>* `` S) \<le> card ?D"
      using finite_reach [of "insert b S" es] Cons.prems by (intro card_mono) auto
    also have "\<dots> \<le> length es + card (insert b S)"
      using Cons.prems by (intro Cons.IH) auto
    also have "\<dots> \<le> length es + (card S + 1)"
      using Cons.prems by (simp add: card_insert_if)
    finally show ?thesis by simp
  next
    case b
    let ?D = "?R\<^sup>* `` insert a S"
    have sub: "?C \<subseteq> ?D" by auto
    have "?R'\<^sup>* `` S \<subseteq> ?D"
    proof (rule Image_rtrancl_closed)
      show "S \<subseteq> ?D" by auto
      show "?R' `` ?D \<subseteq> ?D"
        unfolding R' using b sub rtrancl_Image_closed [of ?R "insert a S"] by blast
    qed
    then have "card (?R'\<^sup>* `` S) \<le> card ?D"
      using finite_reach [of "insert a S" es] Cons.prems by (intro card_mono) auto
    also have "\<dots> \<le> length es + card (insert a S)"
      using Cons.prems by (intro Cons.IH) auto
    also have "\<dots> \<le> length es + (card S + 1)"
      using Cons.prems by (simp add: card_insert_if)
    finally show ?thesis by simp
  qed
qed


section \<open>In a tree every edge is a bridge\<close>

lemma edge_rel_sym_set: "edge_rel G = set (edges G) \<union> (set (edges G))\<inverse>"
  by (simp add: edge_rel_def)

lemma without_sym:
  "(a, b) \<in> without (edge_rel G) e \<Longrightarrow> (b, a) \<in> without (edge_rel G) e"
  by (cases e) (auto simp: without_def edge_rel_def)

lemma without_rtrancl_sym:
  assumes "(a, b) \<in> (without (edge_rel G) e)\<^sup>*"
  shows "(b, a) \<in> (without (edge_rel G) e)\<^sup>*"
  using assms
proof (induction rule: rtrancl_induct)
  case base
  then show ?case by simp
next
  case (step y z)
  from step.hyps(2) have "(z, y) \<in> without (edge_rel G) e"
    by (rule without_sym)
  then show ?case
    using step.IH by (rule converse_rtrancl_into_rtrancl)
qed

lemma without_as_list:
  "without (edge_rel G) (u, v)
     = set (filter (\<lambda>e. e \<noteq> (u, v) \<and> e \<noteq> (v, u)) (edges G))
       \<union> (set (filter (\<lambda>e. e \<noteq> (u, v) \<and> e \<noteq> (v, u)) (edges G)))\<inverse>"
  by (auto simp: without_def edge_rel_def)

lemma tree_bridge:
  assumes wf: "well_formed G" and tree: "is_tree G" and e: "(u, v) \<in> edge_rel G"
  shows "(u, v) \<notin> (without (edge_rel G) (u, v))\<^sup>*"
proof
  let ?W = "without (edge_rel G) (u, v)"
  let ?es = "filter (\<lambda>e. e \<noteq> (u, v) \<and> e \<noteq> (v, u)) (edges G)"
  assume uv: "(u, v) \<in> ?W\<^sup>*"
  then have vu: "(v, u) \<in> ?W\<^sup>*"
    by (rule without_rtrancl_sym)
  have "edge_rel G \<subseteq> ?W\<^sup>*"
    using uv vu by (auto simp: without_def)
  then have sub: "(edge_rel G)\<^sup>* \<subseteq> ?W\<^sup>*"
    by (rule rtrancl_subset_rtrancl)
  from tree obtain r where r: "set (nodes G) \<subseteq> component (edge_rel G) r"
    by (auto simp: is_tree_def component_is_connected)
  with sub have "set (nodes G) \<subseteq> ?W\<^sup>* `` {r}"
    by (auto simp: component_def)
  then have "card (set (nodes G)) \<le> card (?W\<^sup>* `` {r})"
    unfolding without_as_list by (intro card_mono finite_reach) auto
  also have "\<dots> \<le> length ?es + card {r}"
    unfolding without_as_list by (rule card_reach) simp
  finally have le: "length (nodes G) \<le> length ?es + 1"
    using wf by (simp add: well_formed_def distinct_card)
  from e have "(u, v) \<in> set (edges G) \<or> (v, u) \<in> set (edges G)"
    by (auto simp: edge_rel_def)
  then have "length ?es < length (edges G)"
    by (auto intro: length_filter_less)
  with le tree show False
    by (simp add: is_tree_def)
qed


section \<open>Where every edge is a bridge, no node has two arcs coming in\<close>

lemma without_swap: "without R (a, b) = without R (b, a)"
  by (auto simp: without_def)

lemma finite_component_without: "finite (component (without (edge_rel G) e) x)"
  unfolding component_def by (cases e) (simp add: without_as_list finite_reach)

lemma arc_small_side:
  assumes "(p, x) \<in> set (arcs (oriented G))"
  shows "(p, x) \<in> edge_rel G
       \<and> card (component (without (edge_rel G) (p, x)) x)
           \<le> card (component (without (edge_rel G) (p, x)) p)"
proof -
  from assms obtain e where e: "e \<in> set (G_edges G)" and o: "orient (edge_rel G) e = (p, x)"
    by (auto simp: oriented_def)
  from e have R: "e \<in> edge_rel G"
    using G_edges_subset by blast
  show ?thesis
  proof (cases "orient (edge_rel G) e = e")
    case True
    with o R show ?thesis
      by (auto simp: orient_def Let_def split: if_splits)
  next
    case False
    with o have e': "e = (x, p)"
      "card (component (without (edge_rel G) e) (fst e)) < card (component (without (edge_rel G) e) (snd e))"
      by (auto simp: orient_def Let_def split: if_splits)
    with R show ?thesis
      using edge_rel_sym [of x p G] by (simp add: without_swap [of _ p x])
  qed
qed

lemma other_side_inside:
  assumes b2: "(p2, x) \<notin> (without (edge_rel G) (p2, x))\<^sup>*"
    and e2: "(p2, x) \<in> edge_rel G" and ne: "p1 \<noteq> p2"
  shows "insert x (component (without (edge_rel G) (p2, x)) p2)
           \<subseteq> component (without (edge_rel G) (p1, x)) x"
proof -
  let ?W1 = "without (edge_rel G) (p1, x)" and ?W2 = "without (edge_rel G) (p2, x)"
  from b2 have px: "p2 \<noteq> x" by auto
  have "(x, w) \<in> ?W1\<^sup>*" if "(p2, w) \<in> ?W2\<^sup>*" for w
    using that
  proof (induction rule: rtrancl_induct)
    case base
    have "(x, p2) \<in> ?W1"
      using edge_rel_sym [OF e2] ne px by (auto simp: without_def)
    then show ?case by auto
  next
    case (step y z)
    from step.hyps(1) b2 have "y \<noteq> x" by auto
    moreover from step.hyps b2 have "z \<noteq> x"
      by (auto dest: rtrancl_into_rtrancl)
    ultimately have "(y, z) \<in> ?W1"
      using step.hyps(2) by (auto simp: without_def)
    with step.IH show ?case
      by (rule rtrancl_into_rtrancl)
  qed
  then show ?thesis
    by (auto simp: component_def)
qed

lemma other_side_smaller:
  assumes b2: "(p2, x) \<notin> (without (edge_rel G) (p2, x))\<^sup>*"
    and e2: "(p2, x) \<in> edge_rel G" and ne: "p1 \<noteq> p2"
  shows "card (component (without (edge_rel G) (p2, x)) p2)
           < card (component (without (edge_rel G) (p1, x)) x)"
proof -
  have "x \<notin> component (without (edge_rel G) (p2, x)) p2"
    using b2 by (simp add: component_def)
  then have "card (component (without (edge_rel G) (p2, x)) p2)
      < card (insert x (component (without (edge_rel G) (p2, x)) p2))"
    by (simp add: finite_component_without)
  also have "\<dots> \<le> card (component (without (edge_rel G) (p1, x)) x)"
    by (intro card_mono finite_component_without other_side_inside [OF assms])
  finally show ?thesis .
qed

lemma two_elements:
  assumes "distinct xs" "2 \<le> length xs"
  shows "\<exists>a b. a \<in> set xs \<and> b \<in> set xs \<and> a \<noteq> b"
proof -
  from assms(2) obtain a b ys where "xs = a # b # ys"
    by (cases xs; cases "tl xs") auto
  with assms(1) show ?thesis by auto
qed

lemma in_degree_le_1:
  assumes wf: "well_formed G" and br: "all_bridges G"
  shows "in_degree (oriented G) x \<le> 1"
proof (rule ccontr)
  assume "\<not> in_degree (oriented G) x \<le> 1"
  then have len: "2 \<le> length (filter (\<lambda>a. snd a = x) (arcs (oriented G)))"
    by (simp add: in_degree_def predecessors_def)
  have "distinct (filter (\<lambda>a. snd a = x) (arcs (oriented G)))"
    using distinct_map_orient [OF wf] by (simp add: oriented_def)
  from two_elements [OF this len] obtain p1 p2 where
    a1: "(p1, x) \<in> set (arcs (oriented G))" and a2: "(p2, x) \<in> set (arcs (oriented G))"
    and ne: "p1 \<noteq> p2"
    by (auto; metis prod.collapse)
  from arc_small_side [OF a1] arc_small_side [OF a2] have
    e1: "(p1, x) \<in> edge_rel G" and e2: "(p2, x) \<in> edge_rel G"
    and s1: "card (component (without (edge_rel G) (p1, x)) x)
               \<le> card (component (without (edge_rel G) (p1, x)) p1)"
    and s2: "card (component (without (edge_rel G) (p2, x)) x)
               \<le> card (component (without (edge_rel G) (p2, x)) p2)"
    by auto
  from br e1 e2 have b1: "(p1, x) \<notin> (without (edge_rel G) (p1, x))\<^sup>*"
    and b2: "(p2, x) \<notin> (without (edge_rel G) (p2, x))\<^sup>*"
    by (auto simp: all_bridges_def)
  from other_side_smaller [OF b2 e2 ne] other_side_smaller [OF b1 e1 ne [symmetric]] s1 s2
  show False by linarith
qed

lemma tree_all_bridges: "well_formed G \<Longrightarrow> is_tree G \<Longrightarrow> all_bridges G"
  unfolding all_bridges_def using tree_bridge by blast


section \<open>One arc for every edge, and the root of a tree\<close>

lemma length_G_edges:
  assumes wf: "well_formed G"
  shows "length (G_edges G) = length (edges G)"
proof -
  define f :: "node \<times> node \<Rightarrow> node set" where "f = (\<lambda>(u, v). {u, v})"
  have f_eq: "f (a, b) = f (c, d) \<longleftrightarrow> (a, b) = (c, d) \<or> (a, b) = (d, c)" for a b c d
    by (auto simp: f_def doubleton_eq_iff)
  have inj1: "inj_on f (set (G_edges G))"
  proof (rule inj_onI)
    fix x y assume x: "x \<in> set (G_edges G)" and y: "y \<in> set (G_edges G)" and eq: "f x = f y"
    obtain a b c d where xy: "x = (a, b)" "y = (c, d)"
      by (cases x; cases y) blast
    with eq f_eq [of a b c d] have "x = y \<or> (a = d \<and> b = c)"
      by simp
    moreover have "x = y" if "a = d" "b = c"
    proof (cases "a = b")
      case True
      with that xy show ?thesis by simp
    next
      case False
      with G_edges_asym [OF wf, of a b] x y xy that show ?thesis
        by simp
    qed
    ultimately show "x = y" by blast
  qed
  have inj2: "inj_on f (set (edges G))"
  proof (rule inj_onI)
    fix x y assume x: "x \<in> set (edges G)" and y: "y \<in> set (edges G)" and eq: "f x = f y"
    obtain a b c d where xy: "x = (a, b)" "y = (c, d)"
      by (cases x; cases y) blast
    with eq f_eq [of a b c d] have "x = y \<or> (a = d \<and> b = c)"
      by simp
    moreover have "x = y" if "a = d" "b = c"
    proof (cases "a = b")
      case True
      with that xy show ?thesis by simp
    next
      case False
      with wf x y xy that show ?thesis
        by (auto simp: well_formed_def)
    qed
    ultimately show "x = y" by blast
  qed
  have "f ` set (G_edges G) = f ` set (edges G)"
  proof (intro equalityI subsetI)
    fix s assume "s \<in> f ` set (G_edges G)"
    then obtain a b where ab: "(a, b) \<in> set (G_edges G)" "s = f (a, b)"
      by auto
    with G_edges_subset [of G] have "(a, b) \<in> set (edges G) \<or> (b, a) \<in> set (edges G)"
      by (auto simp: edge_rel_def)
    moreover have "f (a, b) = f (b, a)"
      by (simp add: f_eq)
    ultimately show "s \<in> f ` set (edges G)"
      using ab(2) by (metis imageI)
  next
    fix s assume "s \<in> f ` set (edges G)"
    then obtain a b where ab: "(a, b) \<in> set (edges G)" "s = f (a, b)"
      by auto
    then have "(a, b) \<in> edge_rel G"
      by (simp add: edge_rel_def)
    from G_edges_cover [OF wf this] have "(a, b) \<in> set (G_edges G) \<or> (b, a) \<in> set (G_edges G)" .
    moreover have "f (a, b) = f (b, a)"
      by (simp add: f_eq)
    ultimately show "s \<in> f ` set (G_edges G)"
      using ab(2) by (metis imageI)
  qed
  then have "card (set (G_edges G)) = card (set (edges G))"
    using card_image [OF inj1] card_image [OF inj2] by simp
  then show ?thesis
    using wf G_edges_distinct [OF wf] by (simp add: distinct_card well_formed_def)
qed

lemma in_degree_0_iff: "in_degree T x = 0 \<longleftrightarrow> x \<notin> snd ` set (arcs T)"
  by (auto simp: in_degree_def predecessors_def filter_empty_conv)

lemma one_root:
  assumes wf: "well_formed G" and deg: "\<And>x. in_degree (oriented G) x \<le> 1"
    and count: "length (edges G) + 1 = length (nodes G)"
  shows "\<exists>r \<in> set (nodes G). in_degree (oriented G) r = 0
           \<and> (\<forall>x \<in> set (nodes G). x \<noteq> r \<longrightarrow> in_degree (oriented G) x = 1)"
proof -
  let ?T = "oriented G"
  have dist: "distinct (arcs ?T)"
    using distinct_map_orient [OF wf] by (simp add: oriented_def)
  have inj: "inj_on snd (set (arcs ?T))"
  proof (rule inj_onI)
    fix a b assume a: "a \<in> set (arcs ?T)" and b: "b \<in> set (arcs ?T)" and eq: "snd a = snd b"
    show "a = b"
    proof (rule ccontr)
      assume ne: "a \<noteq> b"
      let ?xs = "filter (\<lambda>c. snd c = snd a) (arcs ?T)"
      have "{a, b} \<subseteq> set ?xs"
        using a b eq by auto
      then have "card {a, b} \<le> card (set ?xs)"
        by (intro card_mono) auto
      also have "\<dots> \<le> length ?xs"
        by (rule card_length)
      finally have "2 \<le> in_degree ?T (snd a)"
        using ne by (simp add: in_degree_def predecessors_def)
      with deg [of "snd a"] show False by simp
    qed
  qed
  have heads: "snd ` set (arcs ?T) \<subseteq> set (nodes G)"
    using G_edges_endpoints [OF wf, of "edge_rel G"] by (auto simp: oriented_def)
  have "card (snd ` set (arcs ?T)) = length (arcs ?T)"
    using card_image [OF inj] dist by (simp add: distinct_card)
  also have "\<dots> = length (edges G)"
    by (simp add: oriented_def length_G_edges [OF wf])
  finally have "card (set (nodes G) - snd ` set (arcs ?T)) = 1"
    using heads count wf by (simp add: card_Diff_subset distinct_card well_formed_def)
  then obtain r where r: "set (nodes G) - snd ` set (arcs ?T) = {r}"
    by (auto simp: card_1_singleton_iff)
  then have "r \<in> set (nodes G)" "in_degree ?T r = 0"
    by (auto simp: in_degree_0_iff)
  moreover have "in_degree ?T x = 1" if "x \<in> set (nodes G)" "x \<noteq> r" for x
  proof -
    from that r have "x \<in> snd ` set (arcs ?T)" by auto
    then have "in_degree ?T x \<noteq> 0"
      by (simp add: in_degree_0_iff)
    with deg [of x] show ?thesis by simp
  qed
  ultimately show ?thesis by blast
qed

lemma tree_one_root:
  assumes "well_formed G" "is_tree G"
  shows "\<exists>r \<in> set (nodes G). in_degree (oriented G) r = 0
           \<and> (\<forall>x \<in> set (nodes G). x \<noteq> r \<longrightarrow> in_degree (oriented G) x = 1)"
  using assms
  by (intro one_root in_degree_le_1 tree_all_bridges) (simp_all add: is_tree_def)


text \<open>
  Claim C2 as amended.  For every tree with \<open>n\<close> nodes (a well-formed graph that is
  connected and has \<open>n - 1\<close> edges) \<^verbatim>\<open>LSO\<close> returns a digraph with the \<open>n\<close> nodes of the
  graph, in which exactly one node, the root, has in-degree 0 and every other node has
  in-degree exactly 1.
\<close>

theorem LSO_of_a_tree:
  assumes "well_formed G" and "is_tree G"
  shows "\<exists>G' T. LSO G = Inr (G', T) \<and> dnodes T = nodes G \<and> distinct (dnodes T) \<and>
           (\<exists>r \<in> set (dnodes T). in_degree T r = 0 \<and>
              (\<forall>x \<in> set (dnodes T). x \<noteq> r \<longrightarrow> in_degree T x = 1))"
proof -
  from LSO_oriented [OF assms(1)] obtain G' where "LSO G = Inr (G', oriented G)"
    by blast
  moreover have "dnodes (oriented G) = nodes G"
    by (simp add: oriented_def)
  moreover have "distinct (nodes G)"
    using assms(1) by (simp add: well_formed_def)
  ultimately show ?thesis
    using tree_one_root [OF assms] by auto
qed

text \<open>The theorem of the amended claim C2 at the graph of the program, which is a tree.\<close>

theorem LSO_of_a_tree_witness:
  "well_formed G_example \<and> is_tree G_example \<and>
   (\<exists>G' T. LSO G_example = Inr (G', T) \<and> dnodes T = nodes G_example \<and> distinct (dnodes T) \<and>
      (\<exists>r \<in> set (dnodes T). in_degree T r = 0 \<and>
         (\<forall>x \<in> set (dnodes T). x \<noteq> r \<longrightarrow> in_degree T x = 1)))"
proof -
  have wf: "well_formed G_example"
    by code_simp
  have tree: "is_tree G_example"
    by code_simp
  from LSO_of_a_tree [OF wf tree] wf tree show ?thesis
    by blast
qed

section \<open>What the depth-first traversal visits\<close>

lemma forward_nodes_simps [simp]:
  "forward_nodes [] = []"
  "forward_nodes (Forward u v # ls) = v # forward_nodes ls"
  "forward_nodes (Reverse u v # ls) = forward_nodes ls"
  by (simp_all add: forward_nodes_def)

lemma reverse_nodes_simps [simp]:
  "reverse_nodes [] = []"
  "reverse_nodes (Forward u v # ls) = reverse_nodes ls"
  "reverse_nodes (Reverse u v # ls) = v # reverse_nodes ls"
  by (simp_all add: reverse_nodes_def)

lemma set_successors: "set (successors T v) = set (arcs T) `` {v}"
  by (force simp: successors_def)

lemma dfs_forward_fresh:
  "distinct (forward_nodes (dfs_labeled_edges T visited stack))
   \<and> set (forward_nodes (dfs_labeled_edges T visited stack)) \<inter> set visited = {}"
  by (induction T visited stack rule: dfs_labeled_edges.induct) auto

lemma dfs_forward_sound:
  "set (forward_nodes (dfs_labeled_edges T visited stack)) \<subseteq> (set (arcs T))\<^sup>* `` pending stack"
proof (induction T visited stack rule: dfs_labeled_edges.induct)
  case (1 T visited)
  then show ?case by simp
next
  case (2 T visited u v stack)
  show ?case
  proof (cases "v \<in> set visited")
    case True
    with 2 show ?thesis by auto
  next
    case False
    have "(set (arcs T))\<^sup>* `` pending (map (Forward v) (successors T v) @ Reverse u v # stack)
        \<subseteq> (set (arcs T))\<^sup>* `` pending (Forward u v # stack)"
      by (auto simp: pending_append pending_map_Forward set_successors
          intro: converse_rtrancl_into_rtrancl)
    with False 2 show ?thesis by auto
  qed
next
  case (3 T visited u v stack)
  then show ?case by simp
qed

lemma dfs_forward_closed:
  assumes "\<forall>x \<in> set visited. set (arcs T) `` {x} \<subseteq> set visited \<union> pending stack"
  shows "set (arcs T) `` (set visited \<union> set (forward_nodes (dfs_labeled_edges T visited stack)))
           \<subseteq> set visited \<union> set (forward_nodes (dfs_labeled_edges T visited stack))
       \<and> pending stack \<subseteq> set visited \<union> set (forward_nodes (dfs_labeled_edges T visited stack))"
  using assms
proof (induction T visited stack rule: dfs_labeled_edges.induct)
  case (1 T visited)
  then show ?case by auto
next
  case (2 T visited u v stack)
  show ?case
  proof (cases "v \<in> set visited")
    case True
    with "2.prems" have "\<forall>x \<in> set visited. set (arcs T) `` {x} \<subseteq> set visited \<union> pending stack"
      by auto
    from "2.IH"(1) [OF True this] True show ?thesis by auto
  next
    case False
    let ?st = "map (Forward v) (successors T v) @ Reverse u v # stack"
    have "\<forall>x \<in> set (v # visited). set (arcs T) `` {x} \<subseteq> set (v # visited) \<union> pending ?st"
      using "2.prems" by (auto simp: pending_append pending_map_Forward set_successors)
    from "2.IH"(2) [OF False this] False show ?thesis
      by (auto simp: pending_append pending_map_Forward)
  qed
next
  case (3 T visited u v stack)
  then show ?case by simp
qed

lemma pending_reverse_append: "pending_reverse (xs @ ys) = pending_reverse xs @ pending_reverse ys"
  by (induction xs rule: pending_reverse.induct) auto

lemma pending_reverse_map_Forward: "pending_reverse (map (Forward v) ws) = []"
  by (induction ws) auto

lemma dfs_reverse:
  assumes "distinct (pending_reverse stack)" "set (pending_reverse stack) \<subseteq> set visited"
  shows "distinct (reverse_nodes (dfs_labeled_edges T visited stack))
       \<and> set (reverse_nodes (dfs_labeled_edges T visited stack))
           = set (forward_nodes (dfs_labeled_edges T visited stack)) \<union> set (pending_reverse stack)"
  using assms
proof (induction T visited stack rule: dfs_labeled_edges.induct)
  case (1 T visited)
  then show ?case by simp
next
  case (2 T visited u v stack)
  show ?case
  proof (cases "v \<in> set visited")
    case True
    with 2 show ?thesis by simp
  next
    case False
    let ?st = "map (Forward v) (successors T v) @ Reverse u v # stack"
    have "distinct (pending_reverse ?st)" "set (pending_reverse ?st) \<subseteq> set (v # visited)"
      using "2.prems" False
      by (auto simp: pending_reverse_append pending_reverse_map_Forward)
    from "2.IH"(2) [OF False this] False show ?thesis
      by (auto simp: pending_reverse_append pending_reverse_map_Forward)
  qed
next
  case (3 T visited u v stack)
  then have IH: "distinct (reverse_nodes (dfs_labeled_edges T visited stack))"
    "set (reverse_nodes (dfs_labeled_edges T visited stack))
       = set (forward_nodes (dfs_labeled_edges T visited stack)) \<union> set (pending_reverse stack)"
    by auto
  have "v \<notin> set (forward_nodes (dfs_labeled_edges T visited stack))"
    using dfs_forward_fresh [of T visited stack] "3.prems" by auto
  with IH "3.prems" show ?case by auto
qed

lemma set_dfs_preorder_nodes: "set (dfs_preorder_nodes T s) = (set (arcs T))\<^sup>* `` {s}"
proof
  show "set (dfs_preorder_nodes T s) \<subseteq> (set (arcs T))\<^sup>* `` {s}"
    using dfs_forward_sound [of T "[]" "[Forward s s]"]
    by (simp add: dfs_preorder_nodes_def forward_nodes_def)
next
  let ?D = "set (forward_nodes (dfs_labeled_edges T [] [Forward s s]))"
  from dfs_forward_closed [of "[]" T "[Forward s s]"]
  have "set (arcs T) `` ?D \<subseteq> ?D" "{s} \<subseteq> ?D"
    by auto
  then have "(set (arcs T))\<^sup>* `` {s} \<subseteq> ?D"
    by (intro Image_rtrancl_closed)
  then show "(set (arcs T))\<^sup>* `` {s} \<subseteq> set (dfs_preorder_nodes T s)"
    by (simp add: dfs_preorder_nodes_def forward_nodes_def)
qed

lemma distinct_dfs_preorder_nodes: "distinct (dfs_preorder_nodes T s)"
  using dfs_forward_fresh [of T "[]" "[Forward s s]"]
  by (simp add: dfs_preorder_nodes_def forward_nodes_def)

lemma dfs_postorder_nodes_Inr:
  assumes "dfs_postorder_nodes T s = Inr ns"
  shows "distinct ns \<and> set ns = (set (arcs T))\<^sup>* `` {s}"
proof -
  from assms have ns: "ns = reverse_nodes (dfs_labeled_edges T [] [Forward s s])"
    by (simp add: dfs_postorder_nodes_def reverse_nodes_def split: if_splits)
  from dfs_reverse [of "[Forward s s]" "[]" T] set_dfs_preorder_nodes [of T s]
  show ?thesis
    by (simp add: ns dfs_preorder_nodes_def forward_nodes_def)
qed


section \<open>The traversal reads the arcs only, and the nodes of \<^verbatim>\<open>dfs_tree\<close>\<close>

lemma successors_arcs: "arcs T' = arcs T \<Longrightarrow> successors T' = successors T"
  by (rule ext) (simp add: successors_def)

lemma predecessors_arcs: "arcs T' = arcs T \<Longrightarrow> predecessors T' = predecessors T"
  by (rule ext) (simp add: predecessors_def)

lemma dfs_labeled_edges_arcs:
  "arcs T' = arcs T \<Longrightarrow> dfs_labeled_edges T' visited stack = dfs_labeled_edges T visited stack"
proof (induction T visited stack rule: dfs_labeled_edges.induct)
  case (1 T visited)
  then show ?case by simp
next
  case (2 T visited u v stack)
  then show ?case
    by (simp add: successors_arcs [OF "2.prems"])
next
  case (3 T visited u v stack)
  then show ?case by simp
qed

lemma dfs_preorder_nodes_arcs: "arcs T' = arcs T \<Longrightarrow> dfs_preorder_nodes T' = dfs_preorder_nodes T"
  using dfs_labeled_edges_arcs [of T' T] by (intro ext) (simp add: dfs_preorder_nodes_def del: dfs_labeled_edges.simps)

lemma dfs_tree_arcs: "arcs T' = arcs T \<Longrightarrow> dfs_tree T' = dfs_tree T"
  using dfs_labeled_edges_arcs [of T' T] by (intro ext) (simp add: dfs_tree_def del: dfs_labeled_edges.simps)

lemma pending_parents_append: "pending_parents (xs @ ys) = pending_parents xs \<union> pending_parents ys"
  by (induction xs rule: pending_parents.induct) auto

lemma pending_parents_map_Forward: "pending_parents (map (Forward v) ws) \<subseteq> {v}"
  by (induction ws) auto

lemma dfs_forward_arcs_proper:
  "pending_parents stack \<subseteq> set visited
    \<Longrightarrow> \<forall>(u, v) \<in> set (forward_arcs (dfs_labeled_edges T visited stack)). u \<noteq> v"
proof (induction T visited stack rule: dfs_labeled_edges.induct)
  case (1 T visited)
  then show ?case by simp
next
  case (2 T visited u v stack)
  show ?case
  proof (cases "v \<in> set visited")
    case True
    with 2 show ?thesis by simp
  next
    case False
    have "pending_parents (map (Forward v) (successors T v) @ Reverse u v # stack) \<subseteq> set (v # visited)"
      using "2.prems" pending_parents_map_Forward [of v "successors T v"]
      by (auto simp: pending_parents_append)
    from "2.IH"(2) [OF False this] False "2.prems" show ?thesis
      by auto
  qed
next
  case (3 T visited u v stack)
  then show ?case by simp
qed

lemma dfs_tree_nodes_aux:
  "pending_parents stack \<subseteq> set visited \<Longrightarrow> set (dnodes D) = set visited
    \<Longrightarrow> dnodes (fold (\<lambda>(u, v) D. add_arc D u v) (forward_arcs (dfs_labeled_edges T visited stack)) D)
        = dnodes D @ forward_nodes (dfs_labeled_edges T visited stack)"
proof (induction T visited stack arbitrary: D rule: dfs_labeled_edges.induct)
  case (1 T visited)
  then show ?case by simp
next
  case (2 T visited u v stack)
  show ?case
  proof (cases "v \<in> set visited")
    case True
    with 2 show ?thesis by simp
  next
    case False
    let ?st = "map (Forward v) (successors T v) @ Reverse u v # stack"
    have pp: "pending_parents ?st \<subseteq> set (v # visited)"
      using "2.prems" pending_parents_map_Forward [of v "successors T v"]
      by (auto simp: pending_parents_append)
    have u: "u \<in> set (dnodes D)" and v: "v \<notin> set (dnodes D)"
      using "2.prems" False by auto
    have D': "dnodes (add_arc D u v) = dnodes D @ [v]"
      using u v by (simp add: add_arc_def add_node_def)
    then have "set (dnodes (add_arc D u v)) = set (v # visited)"
      using "2.prems" by auto
    from "2.IH"(2) [OF False pp this] False D' show ?thesis
      by simp
  qed
next
  case (3 T visited u v stack)
  then show ?case by simp
qed

lemma dnodes_dfs_tree: "dnodes (dfs_tree T s) = dfs_preorder_nodes T s"
proof -
  let ?st = "map (Forward s) (successors T s) @ [Reverse s s]"
  let ?ls = "dfs_labeled_edges T [s] ?st"
  have pp: "pending_parents ?st \<subseteq> set [s]"
    using pending_parents_map_Forward [of s "successors T s"]
    by (auto simp: pending_parents_append)
  have unfold: "dfs_labeled_edges T [] [Forward s s] = Forward s s # ?ls"
    by simp
  have proper: "filter (\<lambda>(u, v). u \<noteq> v) (forward_arcs ?ls) = forward_arcs ?ls"
    using dfs_forward_arcs_proper [OF pp, of T] by (intro filter_True) auto
  have D0: "dnodes (add_nodes_from DiGraph [s]) = [s]"
    by (simp add: dnodes_add_nodes_from)
  have "dnodes (dfs_tree T s)
      = dnodes (fold (\<lambda>(u, v) D. add_arc D u v) (forward_arcs ?ls) (add_nodes_from DiGraph [s]))"
    unfolding dfs_tree_def unfold by (simp add: proper)
  also have "\<dots> = [s] @ forward_nodes ?ls"
    using dfs_tree_nodes_aux [OF pp, of "add_nodes_from DiGraph [s]" T] D0 by simp
  also have "\<dots> = dfs_preorder_nodes T s"
    unfolding dfs_preorder_nodes_def unfold by (simp add: forward_nodes_def)
  finally show ?thesis .
qed

lemma length_dfs_tree: "length (dnodes (dfs_tree T s)) = card ((set (arcs T))\<^sup>* `` {s})"
  using distinct_card [OF distinct_dfs_preorder_nodes, of T s]
  by (simp add: dnodes_dfs_tree set_dfs_preorder_nodes)

section \<open>The loop of \<^verbatim>\<open>alg2\<close>\<close>

lemma subtree_size_arcs: "arcs T' = arcs T \<Longrightarrow> subtree_size T' = subtree_size T"
  by (rule ext) (simp add: subtree_size_def)

lemma signature_arcs: "arcs T' = arcs T \<Longrightarrow> signature T' = signature T"
  using subtree_size_arcs [of T' T] successors_arcs [of T' T] dfs_preorder_nodes_arcs [of T' T]
  by (intro ext) (simp add: signature_def)

lemma set_append_new [simp]: "set (append_new k xs) = insert k (set xs)"
  by (auto simp: append_new_def)

lemma distinct_append_new [simp]: "distinct (append_new k xs) = distinct xs"
  by (auto simp: append_new_def)

lemma labels_update:
  "successors (T\<lparr>attr_labels := l\<rparr>) = successors T"
  "predecessors (T\<lparr>attr_labels := l\<rparr>) = predecessors T"
  "dfs_preorder_nodes (T\<lparr>attr_labels := l\<rparr>) = dfs_preorder_nodes T"
  "dfs_tree (T\<lparr>attr_labels := l\<rparr>) = dfs_tree T"
  "subtree_size (T\<lparr>attr_labels := l\<rparr>) = subtree_size T"
proof -
  have arcs: "arcs (T\<lparr>attr_labels := l\<rparr>) = arcs T"
    by simp
  show "successors (T\<lparr>attr_labels := l\<rparr>) = successors T"
    by (rule successors_arcs [OF arcs])
  show "predecessors (T\<lparr>attr_labels := l\<rparr>) = predecessors T"
    by (rule predecessors_arcs [OF arcs])
  show "dfs_preorder_nodes (T\<lparr>attr_labels := l\<rparr>) = dfs_preorder_nodes T"
    by (rule dfs_preorder_nodes_arcs [OF arcs])
  show "dfs_tree (T\<lparr>attr_labels := l\<rparr>) = dfs_tree T"
    by (rule dfs_tree_arcs [OF arcs])
  show "subtree_size (T\<lparr>attr_labels := l\<rparr>) = subtree_size T"
    by (rule subtree_size_arcs [OF arcs])
qed

lemma length_dfs_tree_size: "length (dnodes (dfs_tree T s)) = subtree_size T s"
  by (simp add: length_dfs_tree subtree_size_def)

lemma alg2_body_Inr:
  assumes "x = root \<or> predecessors T x \<noteq> []"
  shows "alg2_body root x (T, labels, tiles)
       = Inr (if x = root then T
              else T\<lparr>attr_labels := (attr_labels T)((hd (predecessors T x), x) \<mapsto> subtree_size T x)\<rparr>,
              if x = root then labels else append_new (subtree_size T x) labels,
              append_new (signature T x) tiles)"
proof (cases "x = root")
  case True
  then show ?thesis
    by (simp add: alg2_body_def Let_def length_dfs_tree_size signature_def append_new_def)
next
  case False
  with assms obtain p ps where p: "predecessors T x = p # ps"
    by (cases "predecessors T x") auto
  show ?thesis
    using False
    by (simp add: alg2_body_def Let_def p length_dfs_tree_size labels_update signature_def
        append_new_def del: fun_upd_apply)
qed

lemma alg2_loop:
  assumes "\<forall>x \<in> set xs. x = root \<or> predecessors T x \<noteq> []"
  shows "\<exists>T' labels' tiles'.
           for_each (alg2_body root) xs (T, labels, tiles) = Inr (T', labels', tiles')
           \<and> arcs T' = arcs T \<and> dnodes T' = dnodes T
           \<and> set labels' = set labels \<union> subtree_size T ` (set xs - {root})
           \<and> (distinct labels \<longrightarrow> distinct labels')
           \<and> set tiles' = set tiles \<union> signature T ` set xs
           \<and> (distinct tiles \<longrightarrow> distinct tiles')
           \<and> (\<forall>p x. attr_labels T' (p, x)
                  = (if x \<in> set xs \<and> x \<noteq> root \<and> p = hd (predecessors T x)
                     then Some (subtree_size T x) else attr_labels T (p, x)))"
  using assms
proof (induction xs arbitrary: T labels tiles)
  case Nil
  then show ?case by simp
next
  case (Cons y ys)
  let ?T1 = "if y = root then T
             else T\<lparr>attr_labels := (attr_labels T)((hd (predecessors T y), y) \<mapsto> subtree_size T y)\<rparr>"
  let ?l1 = "if y = root then labels else append_new (subtree_size T y) labels"
  let ?t1 = "append_new (signature T y) tiles"
  have step: "alg2_body root y (T, labels, tiles) = Inr (?T1, ?l1, ?t1)"
    using Cons.prems by (intro alg2_body_Inr) simp
  have arcs: "arcs ?T1 = arcs T" and dn: "dnodes ?T1 = dnodes T"
    by simp_all
  have pre: "\<forall>x \<in> set ys. x = root \<or> predecessors ?T1 x \<noteq> []"
    using Cons.prems predecessors_arcs [OF arcs] by simp
  from Cons.IH [OF pre, of ?l1 ?t1] obtain T' labels' tiles' where
    run: "for_each (alg2_body root) ys (?T1, ?l1, ?t1) = Inr (T', labels', tiles')"
    and a: "arcs T' = arcs ?T1" "dnodes T' = dnodes ?T1"
    and l: "set labels' = set ?l1 \<union> subtree_size ?T1 ` (set ys - {root})"
      "distinct ?l1 \<longrightarrow> distinct labels'"
    and t: "set tiles' = set ?t1 \<union> signature ?T1 ` set ys" "distinct ?t1 \<longrightarrow> distinct tiles'"
    and m: "\<forall>p x. attr_labels T' (p, x)
                  = (if x \<in> set ys \<and> x \<noteq> root \<and> p = hd (predecessors ?T1 x)
                     then Some (subtree_size ?T1 x) else attr_labels ?T1 (p, x))"
    by blast
  note same = subtree_size_arcs [OF arcs] signature_arcs [OF arcs] predecessors_arcs [OF arcs]
  have "for_each (alg2_body root) (y # ys) (T, labels, tiles) = Inr (T', labels', tiles')"
    using step run by simp
  moreover have "arcs T' = arcs T" "dnodes T' = dnodes T"
    using a arcs dn by simp_all
  moreover have "set labels' = set labels \<union> subtree_size T ` (set (y # ys) - {root})"
    using l(1) unfolding same by auto
  moreover have "distinct labels \<longrightarrow> distinct labels'"
    using l(2) by simp
  moreover have "set tiles' = set tiles \<union> signature T ` set (y # ys)"
    using t(1) unfolding same by auto
  moreover have "distinct tiles \<longrightarrow> distinct tiles'"
    using t(2) by simp
  moreover have "\<forall>p x. attr_labels T' (p, x)
                  = (if x \<in> set (y # ys) \<and> x \<noteq> root \<and> p = hd (predecessors T x)
                     then Some (subtree_size T x) else attr_labels T (p, x))"
    using m unfolding same by auto
  ultimately show ?case by blast
qed


section \<open>Scenario 2 on a rooted tree\<close>

lemma filter_single:
  "distinct xs \<Longrightarrow> r \<in> set xs \<Longrightarrow> P r \<Longrightarrow> \<forall>x \<in> set xs. x \<noteq> r \<longrightarrow> \<not> P x
    \<Longrightarrow> filter P xs = [r]"
proof (induction xs)
  case Nil
  then show ?case by simp
next
  case (Cons a xs)
  show ?case
  proof (cases "a = r")
    case True
    with Cons.prems have "filter P xs = []"
      by (auto simp: filter_empty_conv)
    with True Cons.prems show ?thesis by simp
  next
    case False
    with Cons show ?thesis by auto
  qed
qed

lemma rooted_tree_root:
  assumes "rooted_tree T"
  shows "find_root T \<in> set (dnodes T) \<and> in_degree T (find_root T) = 0
       \<and> (\<forall>x \<in> set (dnodes T). x \<noteq> find_root T \<longrightarrow> in_degree T x = 1)
       \<and> set (dfs_preorder_nodes T (find_root T)) = set (dnodes T)"
proof -
  from assms obtain r where r: "r \<in> set (dnodes T)" "in_degree T r = 0"
    "\<forall>x \<in> set (dnodes T). x \<noteq> r \<longrightarrow> in_degree T x = 1"
    "set (dfs_preorder_nodes T r) = set (dnodes T)" and d: "distinct (dnodes T)"
    by (auto simp: rooted_tree_def)
  have "filter (\<lambda>n. in_degree T n = 0) (dnodes T) = [r]"
    using d r by (intro filter_single) auto
  then have "find_root T = r"
    by (simp add: find_root_def fold_last_such)
  with r show ?thesis by simp
qed

lemma alg2_run_rooted_tree:
  assumes run: "LSO G = Inr (G', T)" and rt: "rooted_tree T"
  shows "\<exists>T' labels tiles. alg2_run G = Inr (T', labels, tiles)
           \<and> arcs T' = arcs T \<and> dnodes T' = dnodes T
           \<and> distinct labels \<and> set labels = subtree_size T ` (set (dnodes T) - {find_root T})
           \<and> distinct tiles \<and> set tiles = signature T ` set (dnodes T)
           \<and> (\<forall>p x. attr_labels T' (p, x)
                  = (if x \<in> set (dnodes T) \<and> x \<noteq> find_root T \<and> p = hd (predecessors T x)
                     then Some (subtree_size T x) else attr_labels T (p, x)))"
proof -
  let ?r = "find_root T"
  note root = rooted_tree_root [OF rt]
  obtain T_list where post: "dfs_postorder_nodes T ?r = Inr T_list"
    using root by (simp add: dfs_postorder_nodes_def)
  from dfs_postorder_nodes_Inr [OF post] root
  have T_list: "set T_list = set (dnodes T)"
    by (simp add: set_dfs_preorder_nodes)
  have "\<forall>x \<in> set T_list. x = ?r \<or> predecessors T x \<noteq> []"
  proof
    fix x assume "x \<in> set T_list"
    with T_list root have "x = ?r \<or> in_degree T x = 1" by auto
    then show "x = ?r \<or> predecessors T x \<noteq> []"
      by (auto simp: in_degree_def)
  qed
  from alg2_loop [OF this, of "[]" "[]"] obtain T' labels tiles where
    "for_each (alg2_body ?r) T_list (T, [], []) = Inr (T', labels, tiles)"
    "arcs T' = arcs T" "dnodes T' = dnodes T"
    "set labels = subtree_size T ` (set T_list - {?r})" "distinct labels"
    "set tiles = signature T ` set T_list" "distinct tiles"
    "\<forall>p x. attr_labels T' (p, x)
                  = (if x \<in> set T_list \<and> x \<noteq> ?r \<and> p = hd (predecessors T x)
                     then Some (subtree_size T x) else attr_labels T (p, x))"
    by auto
  then show ?thesis
    unfolding T_list using run post by (simp add: alg2_run_def Let_def)
qed

text \<open>
  Claim C3.  If the orientation \<open>T\<close> of the input graph is a rooted tree, \<^verbatim>\<open>alg2\<close>
  completes; the arc into every node \<open>x\<close> other than the root, from its one predecessor,
  is labelled with the size of the subtree of \<open>x\<close> (\<open>x\<close> included); and the pair returned
  is the number of distinct subtree sizes of the nodes other than the root and the number
  of distinct tile signatures of the nodes, where the signature of a node without
  successor is empty and that of any other node is the ascending sequence of the subtree
  sizes of all nodes of the preorder traversal from it.
\<close>

theorem alg2_on_a_rooted_tree:
  assumes "LSO G = Inr (G', T)" and "rooted_tree T"
  shows "\<exists>T' labels tiles. alg2_run G = Inr (T', labels, tiles) \<and> arcs T' = arcs T \<and>
           (\<forall>x \<in> set (dnodes T). x \<noteq> find_root T \<longrightarrow>
              (\<exists>p. predecessors T x = [p] \<and> attr_labels T' (p, x) = Some (subtree_size T x))) \<and>
           alg2 G = Inr (card (subtree_size T ` (set (dnodes T) - {find_root T})),
                        card (signature T ` set (dnodes T)))"
proof -
  from alg2_run_rooted_tree [OF assms] obtain T' where
    "\<exists>labels tiles. alg2_run G = Inr (T', labels, tiles)
           \<and> arcs T' = arcs T \<and> dnodes T' = dnodes T
           \<and> distinct labels \<and> set labels = subtree_size T ` (set (dnodes T) - {find_root T})
           \<and> distinct tiles \<and> set tiles = signature T ` set (dnodes T)
           \<and> (\<forall>p x. attr_labels T' (p, x)
                  = (if x \<in> set (dnodes T) \<and> x \<noteq> find_root T \<and> p = hd (predecessors T x)
                     then Some (subtree_size T x) else attr_labels T (p, x)))" ..
  then obtain labels where
    "\<exists>tiles. alg2_run G = Inr (T', labels, tiles)
           \<and> arcs T' = arcs T \<and> dnodes T' = dnodes T
           \<and> distinct labels \<and> set labels = subtree_size T ` (set (dnodes T) - {find_root T})
           \<and> distinct tiles \<and> set tiles = signature T ` set (dnodes T)
           \<and> (\<forall>p x. attr_labels T' (p, x)
                  = (if x \<in> set (dnodes T) \<and> x \<noteq> find_root T \<and> p = hd (predecessors T x)
                     then Some (subtree_size T x) else attr_labels T (p, x)))" ..
  then obtain tiles where H:
    "alg2_run G = Inr (T', labels, tiles)
           \<and> arcs T' = arcs T \<and> dnodes T' = dnodes T
           \<and> distinct labels \<and> set labels = subtree_size T ` (set (dnodes T) - {find_root T})
           \<and> distinct tiles \<and> set tiles = signature T ` set (dnodes T)
           \<and> (\<forall>p x. attr_labels T' (p, x)
                  = (if x \<in> set (dnodes T) \<and> x \<noteq> find_root T \<and> p = hd (predecessors T x)
                     then Some (subtree_size T x) else attr_labels T (p, x)))" ..
  note run = H [THEN conjunct1]
  note arcs = H [THEN conjunct2, THEN conjunct1]
  note dl = H [THEN conjunct2, THEN conjunct2, THEN conjunct2, THEN conjunct1]
  note sl = H [THEN conjunct2, THEN conjunct2, THEN conjunct2, THEN conjunct2, THEN conjunct1]
  note dt = H [THEN conjunct2, THEN conjunct2, THEN conjunct2, THEN conjunct2, THEN conjunct2,
      THEN conjunct1]
  note st = H [THEN conjunct2, THEN conjunct2, THEN conjunct2, THEN conjunct2, THEN conjunct2,
      THEN conjunct2, THEN conjunct1]
  note m = H [THEN conjunct2, THEN conjunct2, THEN conjunct2, THEN conjunct2, THEN conjunct2,
      THEN conjunct2, THEN conjunct2, THEN spec, THEN spec]
  have labelled: "\<exists>p. predecessors T x = [p] \<and> attr_labels T' (p, x) = Some (subtree_size T x)"
    if x: "x \<in> set (dnodes T)" "x \<noteq> find_root T" for x
  proof -
    from rooted_tree_root [OF assms(2)] x have "in_degree T x = 1"
      by blast
    then have "length (predecessors T x) = 1"
      by (simp only: in_degree_def)
    then obtain p where p: "predecessors T x = [p]"
      by (cases "predecessors T x") auto
    have "attr_labels T' (p, x) = Some (subtree_size T x)"
      unfolding m [of p x] using x p by simp
    with p show ?thesis by blast
  qed
  have "length labels = card (set labels)" "length tiles = card (set tiles)"
    using dl dt by (simp_all add: distinct_card)
  then have len: "length labels = card (subtree_size T ` (set (dnodes T) - {find_root T}))"
    "length tiles = card (signature T ` set (dnodes T))"
    by (simp_all only: sl st)
  have "alg2 G = Inr (length labels, length tiles)"
    by (simp add: alg2_def run)
  then have res: "alg2 G = Inr (card (subtree_size T ` (set (dnodes T) - {find_root T})),
                        card (signature T ` set (dnodes T)))"
    by (simp only: len)
  show ?thesis
  proof (intro exI conjI)
    show "alg2_run G = Inr (T', labels, tiles)" by (rule run)
    show "arcs T' = arcs T" by (rule arcs)
    show "\<forall>x \<in> set (dnodes T). x \<noteq> find_root T \<longrightarrow>
              (\<exists>p. predecessors T x = [p] \<and> attr_labels T' (p, x) = Some (subtree_size T x))"
      using labelled by blast
    show "alg2 G = Inr (card (subtree_size T ` (set (dnodes T) - {find_root T})),
                        card (signature T ` set (dnodes T)))"
      by (rule res)
  qed
qed


text \<open>
  The theorem of claim C3 at the graph of the program: its orientation is a rooted tree
  (with root 5), and \<^verbatim>\<open>alg2\<close> returns 4 distinct labels and 6 distinct tiles.
\<close>

theorem alg2_on_a_rooted_tree_witness:
  "rooted_tree (snd (projr (LSO G_example))) \<and> alg2 G_example = Inr (4, 6) \<and>
   card (subtree_size (snd (projr (LSO G_example)))
           ` (set (dnodes (snd (projr (LSO G_example))))
               - {find_root (snd (projr (LSO G_example)))})) = 4 \<and>
   card (signature (snd (projr (LSO G_example))) ` set (dnodes (snd (projr (LSO G_example))))) = 6"
proof -
  define T where "T = snd (projr (LSO G_example))"
  have "\<not> isl (LSO G_example)"
    by code_simp
  then have run: "LSO G_example = Inr (fst (projr (LSO G_example)), T)"
    by (simp add: T_def)
  have rt: "rooted_tree T"
    unfolding T_def by code_simp
  have res: "alg2 G_example = Inr (4, 6)"
    by code_simp
  from alg2_on_a_rooted_tree [OF run rt]
  have "alg2 G_example = Inr (card (subtree_size T ` (set (dnodes T) - {find_root T})),
                        card (signature T ` set (dnodes T)))"
    by blast
  then have "card (subtree_size T ` (set (dnodes T) - {find_root T})) = 4"
    "card (signature T ` set (dnodes T)) = 6"
    by (simp_all only: res sum.inject prod.inject)
  with rt res show ?thesis
    unfolding T_def by blast
qed

section \<open>A rooted tree has a leaf, and its root has a child\<close>

lemma set_predecessors: "set (predecessors T v) = (set (arcs T))\<inverse> `` {v}"
  by (force simp: predecessors_def)

lemma reach_finite: "finite ((set (arcs (T :: digraph)))\<^sup>* `` {x})"
  using set_dfs_preorder_nodes [of T x, symmetric] by simp

lemma rooted_tree_no_cycle:
  assumes rt: "rooted_tree T" and x: "x \<in> set (dnodes T)"
    and xc: "(x, c) \<in> set (arcs T)" and cx: "(c, x) \<in> (set (arcs T))\<^sup>*"
  shows False
proof -
  let ?R = "set (arcs T)"
  let ?r = "find_root T"
  note root = rooted_tree_root [OF rt]
  define C where "C = {y. (x, y) \<in> ?R\<^sup>* \<and> (y, x) \<in> ?R\<^sup>*}"
  have nodes: "?R\<^sup>* `` {?r} = set (dnodes T)"
    using root by (simp add: set_dfs_preorder_nodes)
  have rx: "(?r, x) \<in> ?R\<^sup>*"
    using x nodes by auto
  have xx: "(x, x) \<in> ?R\<^sup>+"
    using xc cx by (rule rtrancl_into_trancl2)
  have on_cycle: "\<exists>z \<in> C. (z, y) \<in> ?R" if "y \<in> C" for y
  proof -
    from that have "(y, x) \<in> ?R\<^sup>*" "(x, y) \<in> ?R\<^sup>*"
      by (auto simp: C_def)
    with xx have "(y, y) \<in> ?R\<^sup>+"
      by (meson rtrancl_trancl_trancl trancl_rtrancl_trancl)
    then obtain z where z: "(y, z) \<in> ?R\<^sup>*" "(z, y) \<in> ?R"
      by (meson tranclD2)
    with \<open>(y, x) \<in> ?R\<^sup>*\<close> \<open>(x, y) \<in> ?R\<^sup>*\<close> have "z \<in> C"
      unfolding C_def by (auto intro: rtrancl_trans converse_rtrancl_into_rtrancl)
    with z show ?thesis by blast
  qed
  have closed: "z \<in> C" if "y \<in> C" "(z, y) \<in> ?R" for y z
  proof -
    from on_cycle [OF that(1)] obtain z' where z': "z' \<in> C" "(z', y) \<in> ?R"
      by blast
    from that(1) rx have "y \<in> set (dnodes T)"
      using nodes by (auto simp: C_def intro: rtrancl_trans)
    moreover from z' have "in_degree T y \<noteq> 0"
      by (auto simp: in_degree_0_iff intro: rev_image_eqI)
    ultimately have "length (predecessors T y) = 1"
      using root by (auto simp: in_degree_def)
    then obtain p where "predecessors T y = [p]"
      by (cases "predecessors T y") auto
    then have "(set (arcs T))\<inverse> `` {y} = {p}"
      using set_predecessors [of T y] by simp
    moreover have "z \<in> (set (arcs T))\<inverse> `` {y}" "z' \<in> (set (arcs T))\<inverse> `` {y}"
      using that(2) z'(2) by auto
    ultimately have "z = z'"
      by simp
    with z' show ?thesis by simp
  qed
  have "y \<in> C \<longrightarrow> w \<in> C" if "(w, y) \<in> ?R\<^sup>*" for w y
    using that by (induction rule: rtrancl_induct) (auto intro: closed)
  moreover have "x \<in> C"
    by (simp add: C_def)
  ultimately have "?r \<in> C"
    using rx by blast
  from on_cycle [OF this] have "in_degree T ?r \<noteq> 0"
    by (auto simp: in_degree_0_iff intro: rev_image_eqI)
  with root show False by simp
qed

lemma least_element: "xs \<noteq> [] \<Longrightarrow> \<exists>x \<in> set xs. \<forall>y \<in> set xs. (f x :: nat) \<le> f y"
proof (induction xs)
  case Nil
  then show ?case by simp
next
  case (Cons a xs)
  show ?case
  proof (cases "xs = []")
    case True
    then show ?thesis by simp
  next
    case False
    from Cons.IH [OF this] obtain x where x: "x \<in> set xs" "\<forall>y \<in> set xs. f x \<le> f y"
      by blast
    show ?thesis
    proof (cases "f a \<le> f x")
      case True
      with x have "\<forall>y \<in> set (a # xs). f a \<le> f y"
        by auto
      then show ?thesis by auto
    next
      case False
      with x have "\<forall>y \<in> set (a # xs). f x \<le> f y"
        by auto
      with x(1) show ?thesis by auto
    qed
  qed
qed

lemma rooted_tree_leaf:
  assumes rt: "rooted_tree T"
  shows "\<exists>x \<in> set (dnodes T). successors T x = []"
proof -
  let ?R = "set (arcs T)"
  note root = rooted_tree_root [OF rt]
  have nodes: "?R\<^sup>* `` {find_root T} = set (dnodes T)"
    using root by (simp add: set_dfs_preorder_nodes)
  from root have "dnodes T \<noteq> []"
    by auto
  from least_element [OF this, of "subtree_size T"] obtain x where
    x: "x \<in> set (dnodes T)" and least: "\<forall>y \<in> set (dnodes T). subtree_size T x \<le> subtree_size T y"
    by blast
  have "successors T x = []"
  proof (rule ccontr)
    assume "successors T x \<noteq> []"
    then obtain c where xc: "(x, c) \<in> ?R"
      using set_successors [of T x] by (cases "successors T x") auto
    have "c \<in> set (dnodes T)"
      using x xc nodes by (auto intro: rtrancl_into_rtrancl)
    with least have le: "card (?R\<^sup>* `` {x}) \<le> card (?R\<^sup>* `` {c})"
      by (simp add: subtree_size_def)
    have sub: "?R\<^sup>* `` {c} \<subseteq> ?R\<^sup>* `` {x}"
      using xc by (auto intro: converse_rtrancl_into_rtrancl)
    have "?R\<^sup>* `` {c} = ?R\<^sup>* `` {x}"
      using sub le reach_finite [of T x] by (intro card_seteq) auto
    then have "(c, x) \<in> ?R\<^sup>*"
      by auto
    with rooted_tree_no_cycle [OF rt x xc] show False by blast
  qed
  with x show ?thesis by blast
qed

lemma rooted_tree_root_child:
  assumes rt: "rooted_tree T" and n: "2 \<le> length (dnodes T)"
  shows "successors T (find_root T) \<noteq> []"
proof -
  let ?R = "set (arcs T)"
  note root = rooted_tree_root [OF rt]
  have "distinct (dnodes T)"
    using rt by (simp add: rooted_tree_def)
  with n have "2 \<le> card (set (dnodes T))"
    by (simp add: distinct_card)
  have "\<not> set (dnodes T) \<subseteq> {find_root T}"
  proof
    assume "set (dnodes T) \<subseteq> {find_root T}"
    then have "card (set (dnodes T)) \<le> card {find_root T}"
      by (intro card_mono) auto
    with \<open>2 \<le> card (set (dnodes T))\<close> show False by simp
  qed
  then obtain x where x: "x \<in> set (dnodes T)" "x \<noteq> find_root T"
    by auto
  with root have "(find_root T, x) \<in> ?R\<^sup>*"
    by (auto simp: set_dfs_preorder_nodes)
  with x(2) obtain y where "(find_root T, y) \<in> ?R"
    by (auto elim: converse_rtranclE)
  then show ?thesis
    using set_successors [of T "find_root T"] by auto
qed


lemma alg2_counts_rooted_tree:
  assumes "LSO G = Inr (G', T)" and "rooted_tree T"
  shows "alg2 G = Inr (card (subtree_size T ` (set (dnodes T) - {find_root T})),
                      card (signature T ` set (dnodes T)))"
proof -
  from alg2_run_rooted_tree [OF assms] obtain T' where
    "\<exists>labels tiles. alg2_run G = Inr (T', labels, tiles)
           \<and> arcs T' = arcs T \<and> dnodes T' = dnodes T
           \<and> distinct labels \<and> set labels = subtree_size T ` (set (dnodes T) - {find_root T})
           \<and> distinct tiles \<and> set tiles = signature T ` set (dnodes T)
           \<and> (\<forall>p x. attr_labels T' (p, x)
                  = (if x \<in> set (dnodes T) \<and> x \<noteq> find_root T \<and> p = hd (predecessors T x)
                     then Some (subtree_size T x) else attr_labels T (p, x)))" ..
  then obtain labels where
    "\<exists>tiles. alg2_run G = Inr (T', labels, tiles)
           \<and> arcs T' = arcs T \<and> dnodes T' = dnodes T
           \<and> distinct labels \<and> set labels = subtree_size T ` (set (dnodes T) - {find_root T})
           \<and> distinct tiles \<and> set tiles = signature T ` set (dnodes T)
           \<and> (\<forall>p x. attr_labels T' (p, x)
                  = (if x \<in> set (dnodes T) \<and> x \<noteq> find_root T \<and> p = hd (predecessors T x)
                     then Some (subtree_size T x) else attr_labels T (p, x)))" ..
  then obtain tiles where H:
    "alg2_run G = Inr (T', labels, tiles)
           \<and> arcs T' = arcs T \<and> dnodes T' = dnodes T
           \<and> distinct labels \<and> set labels = subtree_size T ` (set (dnodes T) - {find_root T})
           \<and> distinct tiles \<and> set tiles = signature T ` set (dnodes T)
           \<and> (\<forall>p x. attr_labels T' (p, x)
                  = (if x \<in> set (dnodes T) \<and> x \<noteq> find_root T \<and> p = hd (predecessors T x)
                     then Some (subtree_size T x) else attr_labels T (p, x)))" ..
  note run = H [THEN conjunct1]
  note dl = H [THEN conjunct2, THEN conjunct2, THEN conjunct2, THEN conjunct1]
  note sl = H [THEN conjunct2, THEN conjunct2, THEN conjunct2, THEN conjunct2, THEN conjunct1]
  note dt = H [THEN conjunct2, THEN conjunct2, THEN conjunct2, THEN conjunct2, THEN conjunct2,
      THEN conjunct1]
  note st = H [THEN conjunct2, THEN conjunct2, THEN conjunct2, THEN conjunct2, THEN conjunct2,
      THEN conjunct2, THEN conjunct1]
  have "length labels = card (set labels)" "length tiles = card (set tiles)"
    using dl dt by (simp_all add: distinct_card)
  then have len: "length labels = card (subtree_size T ` (set (dnodes T) - {find_root T}))"
    "length tiles = card (signature T ` set (dnodes T))"
    by (simp_all only: sl st)
  have "alg2 G = Inr (length labels, length tiles)"
    by (simp add: alg2_def run)
  then show ?thesis
    by (simp only: len)
qed

lemma rooted_tree_tiles:
  assumes rt: "rooted_tree T" and n: "2 \<le> length (dnodes T)"
  shows "(\<exists>x \<in> set (dnodes T). successors T x = [] \<and> signature T x = [])
       \<and> successors T (find_root T) \<noteq> [] \<and> signature T (find_root T) \<noteq> []
       \<and> 2 \<le> card (signature T ` set (dnodes T))
       \<and> card (subtree_size T ` (set (dnodes T) - {find_root T})) \<le> length (dnodes T) - 1"
proof -
  let ?r = "find_root T"
  note root = rooted_tree_root [OF rt]
  from rooted_tree_leaf [OF rt] obtain x where x: "x \<in> set (dnodes T)" "successors T x = []"
    by blast
  then have sx: "signature T x = []"
    by (simp add: signature_def)
  have child: "successors T ?r \<noteq> []"
    by (rule rooted_tree_root_child [OF rt n])
  have "?r \<in> set (dfs_preorder_nodes T ?r)"
    by (simp add: set_dfs_preorder_nodes)
  then have "dfs_preorder_nodes T ?r \<noteq> []"
    by auto
  then have "length (sort (map (subtree_size T) (dfs_preorder_nodes T ?r))) \<noteq> 0"
    by simp
  then have "sort (map (subtree_size T) (dfs_preorder_nodes T ?r)) \<noteq> []"
    by (simp only: length_0_conv not_False_eq_True)
  then have sr: "signature T ?r \<noteq> []"
    using child unfolding signature_def by simp
  have "{[], signature T ?r} \<subseteq> signature T ` set (dnodes T)"
    using x sx root by (auto intro: rev_image_eqI)
  then have "card {[], signature T ?r} \<le> card (signature T ` set (dnodes T))"
    by (intro card_mono) auto
  then have two: "2 \<le> card (signature T ` set (dnodes T))"
    using sr by simp
  have "card (subtree_size T ` (set (dnodes T) - {?r})) \<le> card (set (dnodes T) - {?r})"
    by (intro card_image_le) auto
  also have "\<dots> = card (set (dnodes T)) - 1"
    using root by simp
  also have "\<dots> = length (dnodes T) - 1"
    using rt by (simp add: rooted_tree_def distinct_card)
  finally have "card (subtree_size T ` (set (dnodes T) - {?r})) \<le> length (dnodes T) - 1" .
  with x sx child sr two show ?thesis
    by blast
qed

section \<open>The tile count of scenario 2\<close>

text \<open>
  Claim C10.  If the input graph is well formed and has at least two nodes, and its
  orientation \<open>T\<close> is a rooted tree, \<^verbatim>\<open>alg2\<close> returns a tile count of at least 2: some
  node of \<open>T\<close> has no successor, and its signature is empty; the root has a successor,
  and its signature is not empty; and the tiles counted are the distinct signatures.
\<close>

theorem alg2_at_least_two_tiles:
  assumes "well_formed G" and "2 \<le> length (nodes G)"
    and "LSO G = Inr (G', T)" and "rooted_tree T"
  shows "\<exists>b t. alg2 G = Inr (b, t) \<and> 2 \<le> t \<and> t = card (signature T ` set (dnodes T)) \<and>
           (\<exists>x \<in> set (dnodes T). successors T x = [] \<and> signature T x = []) \<and>
           successors T (find_root T) \<noteq> [] \<and> signature T (find_root T) \<noteq> []"
proof -
  from LSO_oriented [OF assms(1)] assms(3) have "T = oriented G"
    by auto
  then have "dnodes T = nodes G"
    by (simp add: oriented_def)
  with assms(2) have n: "2 \<le> length (dnodes T)"
    by simp
  from rooted_tree_tiles [OF assms(4) n] alg2_counts_rooted_tree [OF assms(3,4)]
  show ?thesis
    by blast
qed

text \<open>
  The theorem of claim C10 at the graph of the program, on which \<^verbatim>\<open>alg2\<close> counts 6
  tiles.
\<close>

theorem alg2_at_least_two_tiles_witness:
  "well_formed G_example \<and> 2 \<le> length (nodes G_example) \<and>
   rooted_tree (snd (projr (LSO G_example))) \<and> alg2 G_example = Inr (4, 6) \<and> (2::nat) \<le> 6"
proof -
  define T where "T = snd (projr (LSO G_example))"
  have wf: "well_formed G_example"
    by code_simp
  have n: "2 \<le> length (nodes G_example)"
    by code_simp
  have "\<not> isl (LSO G_example)"
    by code_simp
  then have run: "LSO G_example = Inr (fst (projr (LSO G_example)), T)"
    by (simp add: T_def)
  have rt: "rooted_tree T"
    unfolding T_def by code_simp
  have res: "alg2 G_example = Inr (4, 6)"
    by code_simp
  from alg2_at_least_two_tiles [OF wf n run rt] obtain b t where
    "alg2 G_example = Inr (b, t)" "2 \<le> t"
    by blast
  with res have "(2::nat) \<le> 6"
    by simp
  with wf n rt res show ?thesis
    unfolding T_def by blast
qed

section \<open>The orientation of a tree is a rooted tree\<close>

lemma oriented_arcs_edges: "set (arcs (oriented G)) \<subseteq> edge_rel G"
  using arc_small_side [of _ _ G] by auto

lemma oriented_arcs_asym:
  assumes wf: "well_formed G" and xy: "(x, y) \<in> set (arcs (oriented G))" and ne: "x \<noteq> y"
  shows "(y, x) \<notin> set (arcs (oriented G))"
proof
  assume yx: "(y, x) \<in> set (arcs (oriented G))"
  from xy obtain e1 where e1: "e1 \<in> set (G_edges G)" "orient (edge_rel G) e1 = (x, y)"
    by (auto simp: oriented_def)
  from yx obtain e2 where e2: "e2 \<in> set (G_edges G)" "orient (edge_rel G) e2 = (y, x)"
    by (auto simp: oriented_def)
  from e1(2) e2(2) ne have "e1 \<noteq> e2"
    by auto
  moreover from e1(2) orient_cases [of "edge_rel G" e1] have "e1 = (x, y) \<or> e1 = (y, x)"
    by (cases e1) auto
  moreover from e2(2) orient_cases [of "edge_rel G" e2] have "e2 = (x, y) \<or> e2 = (y, x)"
    by (cases e2) auto
  ultimately have "(x, y) \<in> set (G_edges G) \<and> (y, x) \<in> set (G_edges G)"
    using e1(1) e2(1) by auto
  with G_edges_asym [OF wf, of x y] ne show False
    by simp
qed

lemma first_arrival:
  assumes "(y, z) \<in> A\<^sup>*"
  shows "(y, z) \<in> {(a, b). (a, b) \<in> A \<and> a \<noteq> x}\<^sup>* \<or> (y, x) \<in> {(a, b). (a, b) \<in> A \<and> a \<noteq> x}\<^sup>*"
  using assms
proof (induction rule: rtrancl_induct)
  case base
  then show ?case by simp
next
  case (step z w)
  show ?case
  proof (cases "z = x")
    case True
    with step.IH show ?thesis by auto
  next
    case False
    with step.hyps(2) have "(z, w) \<in> {(a, b). (a, b) \<in> A \<and> a \<noteq> x}"
      by simp
    with step.IH show ?thesis
      by (auto intro: rtrancl_into_rtrancl)
  qed
qed

lemma oriented_no_cycle:
  assumes wf: "well_formed G" and br: "all_bridges G"
    and xy: "(x, y) \<in> set (arcs (oriented G))"
  shows "(y, x) \<notin> (set (arcs (oriented G)))\<^sup>*"
proof
  let ?A = "set (arcs (oriented G))"
  let ?A' = "{(a, b). (a, b) \<in> ?A \<and> a \<noteq> x}"
  let ?W = "without (edge_rel G) (x, y)"
  assume "(y, x) \<in> ?A\<^sup>*"
  from first_arrival [OF this, of x] have yx: "(y, x) \<in> ?A'\<^sup>*"
    by simp
  from xy oriented_arcs_edges have e: "(x, y) \<in> edge_rel G"
    by blast
  with br have bridge: "(x, y) \<notin> ?W\<^sup>*"
    by (auto simp: all_bridges_def)
  then have ne: "x \<noteq> y"
    by auto
  have "?A' \<subseteq> ?W"
    using oriented_arcs_edges [of G] oriented_arcs_asym [OF wf xy ne]
    by (auto simp: without_def)
  then have "?A'\<^sup>* \<subseteq> ?W\<^sup>*"
    by (rule rtrancl_mono)
  with yx have "(y, x) \<in> ?W\<^sup>*"
    by blast
  then have "(x, y) \<in> ?W\<^sup>*"
    by (rule without_rtrancl_sym)
  with bridge show False by simp
qed

lemma tree_rooted:
  assumes wf: "well_formed G" and tree: "is_tree G"
  shows "rooted_tree (oriented G)"
proof -
  let ?T = "oriented G"
  let ?A = "set (arcs ?T)"
  have br: "all_bridges G"
    by (rule tree_all_bridges [OF wf tree])
  from tree_one_root [OF wf tree] obtain r where r: "r \<in> set (nodes G)" "in_degree ?T r = 0"
    "\<forall>x \<in> set (nodes G). x \<noteq> r \<longrightarrow> in_degree ?T x = 1"
    by blast
  have ends: "fst ` ?A \<union> snd ` ?A \<subseteq> set (nodes G)"
    using G_edges_endpoints [OF wf, of "edge_rel G"] by (simp add: oriented_def)
  have "acyclic ?A"
    unfolding acyclic_def
  proof (intro allI notI)
    fix x assume "(x, x) \<in> ?A\<^sup>+"
    then obtain y where "(x, y) \<in> ?A" "(y, x) \<in> ?A\<^sup>*"
      by (meson tranclD)
    with oriented_no_cycle [OF wf br] show False by blast
  qed
  then have wfA: "wf ?A"
    by (intro finite_acyclic_wf) simp_all
  have reach: "(r, x) \<in> ?A\<^sup>*" if x: "x \<in> set (nodes G)" for x
  proof -
    let ?Q = "{y. (y, x) \<in> ?A\<^sup>*}"
    have "x \<in> ?Q" by simp
    with wfA obtain z where z: "z \<in> ?Q" "\<And>y. (y, z) \<in> ?A \<Longrightarrow> y \<notin> ?Q"
      by (rule wfE_min) blast
    have "z \<notin> snd ` ?A"
    proof
      assume "z \<in> snd ` ?A"
      then obtain y where y: "(y, z) \<in> ?A"
        by force
      with z(1) have "y \<in> ?Q"
        by (auto intro: converse_rtrancl_into_rtrancl)
      with z(2) [OF y] show False by simp
    qed
    then have deg: "in_degree ?T z = 0"
      by (simp add: in_degree_0_iff)
    have "z \<in> set (nodes G)"
    proof (cases "z = x")
      case True
      with x show ?thesis by simp
    next
      case False
      with z(1) obtain w where "(z, w) \<in> ?A"
        by (auto elim: converse_rtranclE)
      with ends show ?thesis by force
    qed
    with deg r(3) have "z = r"
      by force
    with z(1) show ?thesis by simp
  qed
  have "?A\<^sup>* `` {r} \<subseteq> set (nodes G)"
    using r(1) ends by (intro Image_rtrancl_closed) force+
  with reach have "set (dfs_preorder_nodes ?T r) = set (nodes G)"
    by (auto simp: set_dfs_preorder_nodes)
  moreover have "dnodes ?T = nodes G"
    by (simp add: oriented_def)
  moreover have "distinct (nodes G)"
    using wf by (simp add: well_formed_def)
  ultimately show ?thesis
    unfolding rooted_tree_def using r by auto
qed


lemma alg2_on_a_tree:
  assumes wf: "well_formed G" and tree: "is_tree G" and n: "2 \<le> length (nodes G)"
  shows "\<exists>b t. alg2 G = Inr (b, t) \<and> b \<le> length (nodes G) - 1 \<and> 2 \<le> t"
proof -
  from LSO_oriented [OF wf] obtain G' where run: "LSO G = Inr (G', oriented G)"
    by blast
  have rt: "rooted_tree (oriented G)"
    by (rule tree_rooted [OF wf tree])
  have dn: "dnodes (oriented G) = nodes G"
    by (simp add: oriented_def)
  with n have n': "2 \<le> length (dnodes (oriented G))"
    by simp
  from rooted_tree_tiles [OF rt n'] alg2_counts_rooted_tree [OF run rt] show ?thesis
    unfolding dn by blast
qed

section \<open>Scenario 2 on a path graph\<close>

text \<open>
  Claim C9 as amended.  On every path graph with \<open>n \<ge> 2\<close> nodes \<^verbatim>\<open>alg2\<close> completes; the
  count of distinct edge labels that it returns is at most \<open>n - 1\<close>, and the tile count
  is at least 2 (the empty tile of a leaf and the tile of the root), not 1.
\<close>

theorem alg2_on_a_path_graph:
  assumes "well_formed G" and "is_path_graph G" and "2 \<le> length (nodes G)"
  shows "\<exists>b t. alg2 G = Inr (b, t) \<and> b \<le> length (nodes G) - 1 \<and> 2 \<le> t"
  using assms by (intro alg2_on_a_tree) (simp_all add: is_path_graph_def)

text \<open>
  The theorem of the amended claim C9 at the path on four nodes, where \<^verbatim>\<open>alg2\<close> returns
  2 labels and 3 tiles.
\<close>

theorem alg2_on_a_path_graph_witness:
  "well_formed \<lparr>nodes = [1, 2, 3, 4], edges = [(1, 2), (2, 3), (3, 4)]\<rparr> \<and>
   is_path_graph \<lparr>nodes = [1, 2, 3, 4], edges = [(1, 2), (2, 3), (3, 4)]\<rparr> \<and>
   alg2 \<lparr>nodes = [1, 2, 3, 4], edges = [(1, 2), (2, 3), (3, 4)]\<rparr> = Inr (2, 3) \<and>
   (2::nat) \<le> 4 - 1 \<and> (2::nat) \<le> 3"
proof -
  let ?P = "\<lparr>nodes = [1, 2, 3, 4], edges = [(1, 2), (2, 3), (3, 4)]\<rparr>"
  have wf: "well_formed ?P"
    by code_simp
  have path: "is_path_graph ?P"
    by code_simp
  have n: "2 \<le> length (nodes ?P)"
    by simp
  have res: "alg2 ?P = Inr (2, 3)"
    by code_simp
  from alg2_on_a_path_graph [OF wf path n] obtain b t where
    "alg2 ?P = Inr (b, t)" "b \<le> length (nodes ?P) - 1" "2 \<le> t"
    by blast
  with res have "(2::nat) \<le> 4 - 1 \<and> (2::nat) \<le> 3"
    by simp
  with wf path res show ?thesis
    by blast
qed

section \<open>The inner and the outer loop of \<^verbatim>\<open>alg3\<close>\<close>

lemma label_leaves_fold:
  "attr_labels (fold (\<lambda>x T. if out_degree T x = 0 \<and> in_degree T x = 1
                  then T\<lparr>attr_labels := (attr_labels T)((hd (predecessors T x), x) \<mapsto> 1)\<rparr>
                  else T) xs T) (p, y)
     = (if y \<in> set xs \<and> out_degree T y = 0 \<and> in_degree T y = 1 \<and> p = hd (predecessors T y)
        then Some 1 else attr_labels T (p, y))
   \<and> arcs (fold (\<lambda>x T. if out_degree T x = 0 \<and> in_degree T x = 1
                  then T\<lparr>attr_labels := (attr_labels T)((hd (predecessors T x), x) \<mapsto> 1)\<rparr>
                  else T) xs T) = arcs T
   \<and> dnodes (fold (\<lambda>x T. if out_degree T x = 0 \<and> in_degree T x = 1
                  then T\<lparr>attr_labels := (attr_labels T)((hd (predecessors T x), x) \<mapsto> 1)\<rparr>
                  else T) xs T) = dnodes T"
proof (induction xs arbitrary: T)
  case Nil
  then show ?case by simp
next
  case (Cons a xs)
  let ?T1 = "if out_degree T a = 0 \<and> in_degree T a = 1
             then T\<lparr>attr_labels := (attr_labels T)((hd (predecessors T a), a) \<mapsto> 1)\<rparr> else T"
  have arcs: "arcs ?T1 = arcs T"
    by simp
  have same: "out_degree ?T1 = out_degree T" "in_degree ?T1 = in_degree T"
    "predecessors ?T1 = predecessors T"
    using successors_arcs [OF arcs] predecessors_arcs [OF arcs]
    by (simp_all add: out_degree_def in_degree_def fun_eq_iff)
  show ?case
    using Cons.IH [of ?T1] unfolding same by (simp del: fun_upd_apply) auto
qed

lemma label_leaves_labels:
  "attr_labels (label_leaves T) (p, y)
     = (if y \<in> set (dnodes T) \<and> out_degree T y = 0 \<and> in_degree T y = 1 \<and> p = hd (predecessors T y)
        then Some 1 else attr_labels T (p, y))"
  unfolding label_leaves_def using label_leaves_fold [of "dnodes T" T p y] by blast

lemma label_leaves_arcs: "arcs (label_leaves T) = arcs T" "dnodes (label_leaves T) = dnodes T"
  unfolding label_leaves_def using label_leaves_fold [of "dnodes T" T] by blast+

lemma list_ex_iff_Bex: "list_ex P xs \<longleftrightarrow> (\<exists>x \<in> set xs. P x)"
  by (simp add: list_ex_iff)

lemma alg3_body_unlabelled:
  assumes "predecessors T l = p # ps" and "attr_labels T (p, l) = None"
  shows "alg3_body l (T, j, seen)
       = Inr (if seen = [] \<or> \<not> (\<exists>s \<in> set seen. is_isomorphic (dfs_tree T l) s)
              then (T\<lparr>attr_labels := (attr_labels T)((p, l) \<mapsto> j + 1)\<rparr>, j + 1,
                    seen @ [dfs_tree T l])
              else (T, j, seen @ [dfs_tree T l]))"
  using assms
  by (simp add: alg3_body_def label_if_unlabelled_def labels_update list_ex_iff_Bex
      del: fun_upd_apply)

lemma alg3_body_labelled:
  assumes "predecessors T l = p # ps" and "attr_labels T (p, l) \<noteq> None"
  shows "alg3_body l (T, j, seen) = Inr (T, j, seen @ [dfs_tree T l])"
  using assms
  by (auto simp: alg3_body_def label_if_unlabelled_def)

lemma alg3_body_Inr:
  assumes "alg3_body l (T, j, seen) = Inr (T', j', seen')"
  shows "arcs T' = arcs T \<and> dnodes T' = dnodes T \<and> seen' = seen @ [dfs_tree T l]
       \<and> j \<le> j' \<and> j' \<le> j + 1"
proof (cases "predecessors T l")
  case Nil
  with assms show ?thesis
    by (auto simp: alg3_body_def label_if_unlabelled_def split: if_splits)
next
  case (Cons p ps)
  show ?thesis
  proof (cases "attr_labels T (p, l) = None")
    case True
    from assms show ?thesis
      unfolding alg3_body_unlabelled [OF Cons True] by (auto split: if_splits)
  next
    case False
    from assms show ?thesis
      unfolding alg3_body_labelled [OF Cons False] by auto
  qed
qed

lemma alg3_inner_loop:
  assumes "for_each alg3_body ls (T, j, seen) = Inr (T', j', seen')"
  shows "arcs T' = arcs T \<and> dnodes T' = dnodes T \<and> seen' = seen @ map (dfs_tree T) ls
       \<and> j \<le> j' \<and> j' \<le> j + length ls"
  using assms
proof (induction ls arbitrary: T j seen)
  case Nil
  then show ?case by simp
next
  case (Cons l ls)
  from Cons.prems obtain T1 j1 seen1 where
    step: "alg3_body l (T, j, seen) = Inr (T1, j1, seen1)"
    and rest: "for_each alg3_body ls (T1, j1, seen1) = Inr (T', j', seen')"
    by (auto split: sum.splits)
  from alg3_body_Inr [OF step] have s: "arcs T1 = arcs T" "dnodes T1 = dnodes T"
    "seen1 = seen @ [dfs_tree T l]" "j \<le> j1" "j1 \<le> j + 1"
    by auto
  from Cons.IH [OF rest] have r: "arcs T' = arcs T1" "dnodes T' = dnodes T1"
    "seen' = seen1 @ map (dfs_tree T1) ls" "j1 \<le> j'" "j' \<le> j1 + length ls"
    by auto
  from s r dfs_tree_arcs [OF s(1)] show ?case
    by simp
qed

lemma bfs_layer_arcs:
  "arcs T' = arcs T \<Longrightarrow> bfs_layer T' visited current d = bfs_layer T visited current d"
proof (induction d arbitrary: visited current)
  case 0
  then show ?case by simp
next
  case (Suc d)
  then show ?case
    by (simp add: successors_arcs [OF Suc.prems] Let_def)
qed

lemma descendants_at_distance_arcs:
  assumes "arcs T' = arcs T" "dnodes T' = dnodes T"
  shows "descendants_at_distance T' = descendants_at_distance T"
  using assms bfs_layer_arcs [OF assms(1)]
  by (simp add: descendants_at_distance_def fun_eq_iff)

lemma alg3_outer_loop:
  assumes "for_each (alg3_level set_list root) is (T, j, seen) = Inr (T', j', seen')"
  shows "arcs T' = arcs T \<and> dnodes T' = dnodes T \<and> j \<le> j'
       \<and> seen' = seen @ concat (map (\<lambda>i. map (dfs_tree T)
                     (set_list (projr (descendants_at_distance T root i)))) is)"
  using assms
proof (induction "is" arbitrary: T j seen)
  case Nil
  then show ?case by simp
next
  case (Cons i "is")
  from Cons.prems obtain T1 j1 seen1 where
    level: "alg3_level set_list root i (T, j, seen) = Inr (T1, j1, seen1)"
    and rest: "for_each (alg3_level set_list root) is (T1, j1, seen1) = Inr (T', j', seen')"
    by (auto split: sum.splits)
  from level obtain layer where layer: "descendants_at_distance T root i = Inr layer"
    and inner: "for_each alg3_body (set_list layer) (T, j, seen) = Inr (T1, j1, seen1)"
    by (auto simp: alg3_level_def split: sum.splits)
  from alg3_inner_loop [OF inner] have s: "arcs T1 = arcs T" "dnodes T1 = dnodes T"
    "seen1 = seen @ map (dfs_tree T) (set_list layer)" "j \<le> j1"
    by auto
  from Cons.IH [OF rest] have r: "arcs T' = arcs T1" "dnodes T' = dnodes T1" "j1 \<le> j'"
    "seen' = seen1 @ concat (map (\<lambda>i. map (dfs_tree T1)
                     (set_list (projr (descendants_at_distance T1 root i)))) is)"
    by auto
  from s r layer dfs_tree_arcs [OF s(1)] descendants_at_distance_arcs [OF s(1,2)] show ?case
    by simp
qed


section \<open>Scenario 3: leaves, levels and the list of subtrees seen\<close>

text \<open>
  Claim C4.  Let \<open>T\<close> be the orientation of the input and \<open>h\<close> its height (the length
  of a longest path).  Then
  \<^item> \<^verbatim>\<open>alg3\<close> first labels the leaves and then runs through the levels \<open>h - 1\<close>, \dots, 1,
    starting with the counter 1 and an empty list of subtrees seen;
  \<^item> after the labelling of the leaves, the arc into every node without successor and
    with exactly one predecessor carries the label 1;
  \<^item> a level is run through node by node, over the nodes at that distance from the root;
  \<^item> on a node \<open>l\<close> whose incoming arc is unlabelled, the counter is incremented and
    the arc gets the new value as label exactly when the list of subtrees seen is empty
    or no subtree in it is isomorphic to the subtree of \<open>l\<close>; in either case the subtree of
    \<open>l\<close> is appended to the list;
  \<^item> so when \<^verbatim>\<open>alg3\<close> completes, the list holds the subtrees of all nodes of the levels
    \<open>h - 1\<close>, \dots, 1, one entry for every node, duplicates included.
\<close>

theorem alg3_labels_level_by_level:
  assumes "LSO G = Inr (G', T)" and "dag_longest_path_length T = Inr h"
  shows "alg3_run set_list G
           = for_each (alg3_level set_list (find_root T)) (rev [1..<h]) (label_leaves T, 1, []) \<and>
         (\<forall>x \<in> set (dnodes T). out_degree T x = 0 \<and> in_degree T x = 1 \<longrightarrow>
            (\<exists>p. predecessors T x = [p] \<and> attr_labels (label_leaves T) (p, x) = Some 1)) \<and>
         (\<forall>T1 j seen i layer. descendants_at_distance T1 (find_root T) i = Inr layer \<longrightarrow>
            alg3_level set_list (find_root T) i (T1, j, seen)
              = for_each alg3_body (set_list layer) (T1, j, seen)) \<and>
         (\<forall>T1 j seen l p ps. predecessors T1 l = p # ps \<and> attr_labels T1 (p, l) = None \<longrightarrow>
            alg3_body l (T1, j, seen)
              = Inr (if seen = [] \<or> \<not> (\<exists>s \<in> set seen. is_isomorphic (dfs_tree T1 l) s)
                     then (T1\<lparr>attr_labels := (attr_labels T1)((p, l) \<mapsto> j + 1)\<rparr>, j + 1,
                           seen @ [dfs_tree T1 l])
                     else (T1, j, seen @ [dfs_tree T1 l]))) \<and>
         (\<forall>T' j subgraphs. alg3_run set_list G = Inr (T', j, subgraphs) \<longrightarrow>
            subgraphs = concat (map (\<lambda>i. map (dfs_tree T)
                          (set_list (projr (descendants_at_distance T (find_root T) i))))
                          (rev [1..<h])))"
proof (intro conjI ballI allI impI)
  show run: "alg3_run set_list G
           = for_each (alg3_level set_list (find_root T)) (rev [1..<h]) (label_leaves T, 1, [])"
    by (simp add: alg3_run_def assms levels_def)
  show "\<exists>p. predecessors T x = [p] \<and> attr_labels (label_leaves T) (p, x) = Some 1"
    if "x \<in> set (dnodes T)" "out_degree T x = 0 \<and> in_degree T x = 1" for x
  proof -
    from that(2) have "length (predecessors T x) = 1"
      by (simp add: in_degree_def)
    then obtain p where p: "predecessors T x = [p]"
      by (cases "predecessors T x") auto
    with that have "attr_labels (label_leaves T) (p, x) = Some 1"
      by (simp add: label_leaves_labels)
    with p show ?thesis by blast
  qed
  show "alg3_level set_list (find_root T) i (T1, j, seen)
              = for_each alg3_body (set_list layer) (T1, j, seen)"
    if "descendants_at_distance T1 (find_root T) i = Inr layer" for T1 j seen i layer
    using that by (simp add: alg3_level_def)
  show "alg3_body l (T1, j, seen)
              = Inr (if seen = [] \<or> \<not> (\<exists>s \<in> set seen. is_isomorphic (dfs_tree T1 l) s)
                     then (T1\<lparr>attr_labels := (attr_labels T1)((p, l) \<mapsto> j + 1)\<rparr>, j + 1,
                           seen @ [dfs_tree T1 l])
                     else (T1, j, seen @ [dfs_tree T1 l]))"
    if "predecessors T1 l = p # ps \<and> attr_labels T1 (p, l) = None" for T1 j seen l p ps
    using that by (intro alg3_body_unlabelled) auto
  show "subgraphs = concat (map (\<lambda>i. map (dfs_tree T)
                          (set_list (projr (descendants_at_distance T (find_root T) i))))
                          (rev [1..<h]))"
    if "alg3_run set_list G = Inr (T', j, subgraphs)" for T' j subgraphs
  proof -
    from that have "for_each (alg3_level set_list (find_root T)) (rev [1..<h])
        (label_leaves T, 1, []) = Inr (T', j, subgraphs)"
      by (simp only: run)
    from alg3_outer_loop [OF this]
    have "subgraphs = [] @ concat (map (\<lambda>i. map (dfs_tree (label_leaves T))
                     (set_list (projr (descendants_at_distance (label_leaves T) (find_root T) i))))
                     (rev [1..<h]))"
      by blast
    then show ?thesis
      unfolding dfs_tree_arcs [OF label_leaves_arcs(1)]
        descendants_at_distance_arcs [OF label_leaves_arcs]
      by simp
  qed
qed

text \<open>
  The theorem of claim C4 at the graph of the program, whose orientation has height 3:
  node 1 is a leaf and the arc from 3 to it gets the label 1, and the run ends with the
  counter 5 and the five subtrees of the nodes of levels 2 and 1 in the list.
\<close>

theorem alg3_labels_level_by_level_witness:
  "dag_longest_path_length (snd (projr (LSO G_example))) = Inr 3 \<and>
   out_degree (snd (projr (LSO G_example))) 1 = 0 \<and>
   in_degree (snd (projr (LSO G_example))) 1 = 1 \<and>
   attr_labels (label_leaves (snd (projr (LSO G_example)))) (3, 1) = Some 1 \<and>
   alg3 id G_example = Inr (5, 6) \<and>
   length (snd (snd (projr (alg3_run id G_example)))) = 5"
proof -
  define T where "T = snd (projr (LSO G_example))"
  have "\<not> isl (LSO G_example)"
    by code_simp
  then have run: "LSO G_example = Inr (fst (projr (LSO G_example)), T)"
    by (simp add: T_def)
  have h: "dag_longest_path_length T = Inr 3"
    unfolding T_def by code_simp
  have nodes: "1 \<in> set (dnodes T)"
    unfolding T_def by code_simp
  have leaf: "out_degree T 1 = 0 \<and> in_degree T 1 = 1"
    unfolding T_def by code_simp
  have pred: "predecessors T 1 = [3]"
    unfolding T_def by code_simp
  have res: "alg3 id G_example = Inr (5, 6)"
    by code_simp
  have len: "length (snd (snd (projr (alg3_run id G_example)))) = 5"
    by code_simp
  note inst = alg3_labels_level_by_level [OF run h, of id]
  from inst [THEN conjunct2, THEN conjunct1, THEN bspec, OF nodes] leaf pred
  have "attr_labels (label_leaves T) (3, 1) = Some 1"
    by simp
  with h leaf res len show ?thesis
    unfolding T_def by blast
qed

end
